theory Spec2Isabelle
  imports Complex_Main "HOL-Library.Log_Nat"
begin

section \<open>The analog gyro driver of robotpy-wpilib (wpilib/analoggyro.py)\<close>

text \<open>
  The development embeds the class \<open>AnalogGyro\<close>.  Python's \<open>int\<close> is HOL's
  \<open>int\<close>.  A Python \<open>float\<close> is a \<open>real\<close>.  In \<open>calibrate\<close>, where the
  rounding of a quotient decides what is stored, every float operation rounds as
  binary64 does (\<open>round_double\<close>).  In the reads and in \<open>setDeadband\<close> the
  arithmetic is exact, so rounding error is outside the model there.  Overflow and NaN
  are outside the model everywhere.  What Python raises is a value: an operation returns
  \<open>Inl (e, s)\<close> when it raises \<open>e\<close> having mutated the state to \<open>s\<close>, and
  \<open>Inr\<close> of its result otherwise.
\<close>

subsection \<open>Python numerics\<close>

datatype py_error = ZeroDivisionError | AttributeError

text \<open>\<open>int(x)\<close> of a float: truncation toward zero.\<close>

definition py_int :: "real \<Rightarrow> int" where
  "py_int x = (if 0 \<le> x then \<lfloor>x\<rfloor> else \<lceil>x\<rceil>)"

text \<open>
  Binary64: a significand of 53 bits, rounding to the nearest double, ties to the even
  significand.  \<open>binade x\<close> is the exponent \<open>e\<close> with \<open>2^e \<le> x < 2^(e+1)\<close> of a
  positive \<open>x\<close>; the doubles of that binade are the multiples of \<open>2^(e-52)\<close>.  The
  range of the exponent is left out: the accumulator's value and count are 64-bit
  integers, and no operation of \<open>calibrate\<close> on them overflows or gives a subnormal.
\<close>

definition round_half_even :: "real \<Rightarrow> int" where
  "round_half_even y =
     (let f = \<lfloor>y\<rfloor>; r = y - of_int f
      in if r < 1 / 2 then f else if 1 / 2 < r then f + 1 else if even f then f else f + 1)"

definition binade :: "real \<Rightarrow> int" where
  "binade x = (if 1 \<le> x then bitlen \<lfloor>x\<rfloor> - 1 else - bitlen (\<lceil>1 / x\<rceil> - 1))"

definition round_double :: "real \<Rightarrow> real" where
  "round_double x =
     (if x = 0 then 0
      else of_int (round_half_even (x / 2 powi (binade \<bar>x\<bar> - 52))) * 2 powi (binade \<bar>x\<bar> - 52))"

text \<open>The doubles: an integer of at most 53 bits times a power of two.\<close>

definition is_double :: "real \<Rightarrow> bool" where
  "is_double x \<longleftrightarrow> (\<exists>m j. \<bar>m\<bar> \<le> 2 ^ 53 \<and> x = of_int m * 2 powi j)"

text \<open>\<open>float(i)\<close> of an int: the nearest double.\<close>

definition py_float :: "int \<Rightarrow> real" where
  "py_float i = round_double (real_of_int i)"

text \<open>\<open>x / y\<close>, \<open>x + y\<close> and \<open>x - y\<close> on doubles; the division raises on a
  zero divisor.\<close>

definition float_truediv :: "real \<Rightarrow> real \<Rightarrow> py_error + real" where
  "float_truediv x y = (if y = 0 then Inl ZeroDivisionError else Inr (round_double (x / y)))"

definition float_add :: "real \<Rightarrow> real \<Rightarrow> real" where
  "float_add x y = round_double (x + y)"

definition float_sub :: "real \<Rightarrow> real \<Rightarrow> real" where
  "float_sub x y = round_double (x - y)"

text \<open>\<open>x / y\<close> with exact arithmetic, for the reads; it raises on a zero divisor.\<close>

definition py_truediv :: "real \<Rightarrow> real \<Rightarrow> py_error + real" where
  "py_truediv x y = (if y = 0 then Inl ZeroDivisionError else Inr (x / y))"

text \<open>\<open>1 << n\<close> for a bit count the channel reports (never negative).\<close>

definition shl1 :: "nat \<Rightarrow> int" where
  "shl1 n = 2 ^ n"

subsection \<open>The analog input channel\<close>

text \<open>
  The class \<open>AnalogInput\<close> lives in wpilib/analoginput.py, which is outside the
  file under study.  Its state is the record below; the reads return what the hardware
  last put there (\<open>accumulate\<close>, \<open>sample\<close>).
\<close>

record analog_input =
  channel :: nat
  averageBits :: nat
  oversampleBits :: nat
  accumulatorArmed :: bool
  accumulatorCenter :: int
  accumulatorDeadband :: int
  accumulatorValue :: int
  accumulatorCount :: int
  averageValue :: int
  lsbWeight :: real

definition AnalogInput :: "nat \<Rightarrow> real \<Rightarrow> analog_input" where
  \<comment> \<open>Modelled from the spec: the constructor of AnalogInput (allocate a new
      accumulator channel for a raw index); the LSB weight is the hardware's.\<close>
  "AnalogInput n w =
     \<lparr>channel = n, averageBits = 0, oversampleBits = 0, accumulatorArmed = False,
      accumulatorCenter = 0, accumulatorDeadband = 0, accumulatorValue = 0,
      accumulatorCount = 0, averageValue = 0, lsbWeight = w\<rparr>"

definition setAverageBits :: "nat \<Rightarrow> analog_input \<Rightarrow> analog_input" where
  \<comment> \<open>Modelled from the spec: AnalogInput.setAverageBits, the averaging depth setter.\<close>
  "setAverageBits b a = a\<lparr>averageBits := b\<rparr>"

definition setOversampleBits :: "nat \<Rightarrow> analog_input \<Rightarrow> analog_input" where
  \<comment> \<open>Modelled from the spec: AnalogInput.setOversampleBits, the oversampling depth setter.\<close>
  "setOversampleBits b a = a\<lparr>oversampleBits := b\<rparr>"

definition initAccumulator :: "analog_input \<Rightarrow> analog_input" where
  \<comment> \<open>Modelled from the spec: AnalogInput.initAccumulator arms the accumulator.\<close>
  "initAccumulator a = a\<lparr>accumulatorArmed := True\<rparr>"

definition resetAccumulator :: "analog_input \<Rightarrow> analog_input" where
  \<comment> \<open>Modelled from the spec: AnalogInput.resetAccumulator resets the accumulator to zero.\<close>
  "resetAccumulator a = a\<lparr>accumulatorValue := 0, accumulatorCount := 0\<rparr>"

definition setAccumulatorCenter :: "int \<Rightarrow> analog_input \<Rightarrow> analog_input" where
  \<comment> \<open>Modelled from the spec: AnalogInput.setAccumulatorCenter stores the new center.\<close>
  "setAccumulatorCenter c a = a\<lparr>accumulatorCenter := c\<rparr>"

definition setAccumulatorDeadband :: "int \<Rightarrow> analog_input \<Rightarrow> analog_input" where
  \<comment> \<open>Modelled from the spec: AnalogInput.setAccumulatorDeadband stores the deadband.\<close>
  "setAccumulatorDeadband d a = a\<lparr>accumulatorDeadband := d\<rparr>"

definition getAccumulatorOutput :: "analog_input \<Rightarrow> int \<times> int" where
  \<comment> \<open>Modelled from the spec: AnalogInput.getAccumulatorOutput reads (value, count).\<close>
  "getAccumulatorOutput a = (accumulatorValue a, accumulatorCount a)"

definition getAverageValue :: "analog_input \<Rightarrow> int" where
  \<comment> \<open>Modelled from the spec: AnalogInput.getAverageValue reads the averaged raw value.\<close>
  "getAverageValue a = averageValue a"

definition getLSBWeight :: "analog_input \<Rightarrow> real" where
  \<comment> \<open>Modelled from the spec: AnalogInput.getLSBWeight.\<close>
  "getLSBWeight a = lsbWeight a"

definition getAverageBits :: "analog_input \<Rightarrow> nat" where
  \<comment> \<open>Modelled from the spec: AnalogInput.getAverageBits.\<close>
  "getAverageBits a = averageBits a"

definition getOversampleBits :: "analog_input \<Rightarrow> nat" where
  \<comment> \<open>Modelled from the spec: AnalogInput.getOversampleBits.\<close>
  "getOversampleBits a = oversampleBits a"

definition getChannel :: "analog_input \<Rightarrow> nat" where
  \<comment> \<open>Modelled from the spec: AnalogInput.getChannel, the channel's identity.\<close>
  "getChannel a = channel a"

text \<open>The hardware's side of the channel: what it has accumulated and averaged.\<close>

definition accumulate :: "int \<times> int \<Rightarrow> analog_input \<Rightarrow> analog_input" where
  "accumulate snap a = a\<lparr>accumulatorValue := fst snap, accumulatorCount := snd snap\<rparr>"

definition sample :: "int \<Rightarrow> analog_input \<Rightarrow> analog_input" where
  "sample v a = a\<lparr>averageValue := v\<rparr>"

subsection \<open>The process-wide collaborators\<close>

text \<open>
  \<open>hal.HALIsSimulation\<close>, \<open>hal.HALReport\<close>, \<open>Timer.delay\<close>, \<open>LiveWindow\<close> and
  the global sample rate of \<open>AnalogInput\<close> are outside the file under study too.
\<close>

record hal =
  simulation :: bool
  hwLSBWeight :: real
  globalSampleRate :: real
  delays :: "real list"
  usageReports :: "nat list"
  liveWindow :: "(nat \<times> string \<times> nat) list"
  freedChannels :: "nat list"

definition HALIsSimulation :: "hal \<Rightarrow> bool" where
  \<comment> \<open>Modelled from the spec: hal.HALIsSimulation tells simulated from real hardware.\<close>
  "HALIsSimulation w = simulation w"

definition Timer_delay :: "real \<Rightarrow> hal \<Rightarrow> hal" where
  \<comment> \<open>Modelled from the spec: Timer.delay blocks for the given time; the waits are logged.\<close>
  "Timer_delay t w = w\<lparr>delays := delays w @ [t]\<rparr>"

definition setGlobalSampleRate :: "real \<Rightarrow> hal \<Rightarrow> hal" where
  \<comment> \<open>Modelled from the spec: AnalogInput.setGlobalSampleRate, shared process-wide.\<close>
  "setGlobalSampleRate r w = w\<lparr>globalSampleRate := r\<rparr>"

definition getGlobalSampleRate :: "hal \<Rightarrow> real" where
  \<comment> \<open>Modelled from the spec: AnalogInput.getGlobalSampleRate.\<close>
  "getGlobalSampleRate w = globalSampleRate w"

definition HALReport :: "nat \<Rightarrow> hal \<Rightarrow> hal" where
  \<comment> \<open>Modelled from the spec: hal.HALReport of a gyro on a channel (usage telemetry).\<close>
  "HALReport n w = w\<lparr>usageReports := usageReports w @ [n]\<rparr>"

definition addSensorChannel :: "string \<Rightarrow> nat \<Rightarrow> nat \<Rightarrow> hal \<Rightarrow> hal" where
  \<comment> \<open>Modelled from the spec: LiveWindow.addSensorChannel registers a component (here
      its object identity) under a name and a channel.\<close>
  "addSensorChannel name n ob w = w\<lparr>liveWindow := liveWindow w @ [(ob, name, n)]\<rparr>"

definition removeComponent :: "nat \<Rightarrow> hal \<Rightarrow> hal" where
  \<comment> \<open>Modelled from the spec: LiveWindow.removeComponent unregisters a component;
      unregistering an absent one changes nothing.\<close>
  "removeComponent ob w = w\<lparr>liveWindow := filter (\<lambda>e. fst e \<noteq> ob) (liveWindow w)\<rparr>"

definition AnalogInput_free :: "analog_input \<Rightarrow> hal \<Rightarrow> hal" where
  \<comment> \<open>Modelled from the spec: AnalogInput.free releases the channel.\<close>
  "AnalogInput_free a w = w\<lparr>freedChannels := freedChannels w @ [channel a]\<rparr>"

subsection \<open>The driver\<close>

datatype pid_source_type = kDisplacement | kRate

record analog_gyro =
  ident :: nat
  analog :: "analog_input option"
  channelAllocated :: bool
  voltsPerDegreePerSecond :: real
  center :: "int option"
  offset :: "real option"
  pidSourceType :: "pid_source_type option"

text \<open>
  \<open>ident\<close> is the object's identity, by which LiveWindow knows it.  \<open>center\<close> and
  \<open>offset\<close> are \<open>None\<close> while the attribute has not been assigned; \<open>analog\<close> is
  \<open>None\<close> when the attribute holds Python's \<open>None\<close>.
\<close>

type_synonym state = "hal \<times> analog_gyro"

type_synonym 'a result = "(py_error \<times> state) + 'a"

definition kOversampleBits :: nat where "kOversampleBits = 10"
definition kAverageBits :: nat where "kAverageBits = 0"
definition kSamplesPerSecond :: real where "kSamplesPerSecond = 50"
definition kCalibrationSampleTime :: real where "kCalibrationSampleTime = 5"
definition kDefaultVoltsPerDegreePerSecond :: real where
  "kDefaultVoltsPerDegreePerSecond = 7 / 1000"

text \<open>The argument of the constructor: a channel index, or an object that has
  \<open>initAccumulator\<close>.\<close>

datatype channel_arg = Index nat | Input analog_input

definition setDeadband :: "real \<Rightarrow> state \<Rightarrow> state result" where
  "setDeadband volts s =
     (case analog (snd s) of
        None \<Rightarrow> Inr s
      | Some a \<Rightarrow>
          (case py_truediv (volts * 10 ^ 9) (getLSBWeight a) of
             Inl e \<Rightarrow> Inl (e, s)
           | Inr q \<Rightarrow>
               let deadband = py_int (q * real_of_int (shl1 (getOversampleBits a)))
               in Inr (fst s, (snd s)\<lparr>analog := Some (setAccumulatorDeadband deadband a)\<rparr>)))"

definition setPIDSourceType :: "pid_source_type \<Rightarrow> analog_gyro \<Rightarrow> analog_gyro" where
  \<comment> \<open>Modelled from the spec: GyroBase.setPIDSourceType, a setter of the base class.\<close>
  "setPIDSourceType t g = g\<lparr>pidSourceType := Some t\<rparr>"

definition setSensitivity :: "real \<Rightarrow> analog_gyro \<Rightarrow> analog_gyro" where
  "setSensitivity v g = g\<lparr>voltsPerDegreePerSecond := v\<rparr>"

definition getCenter :: "analog_gyro \<Rightarrow> py_error + int" where
  "getCenter g = (case center g of None \<Rightarrow> Inl AttributeError | Some c \<Rightarrow> Inr c)"

definition getOffset :: "analog_gyro \<Rightarrow> py_error + real" where
  "getOffset g = (case offset g of None \<Rightarrow> Inl AttributeError | Some off \<Rightarrow> Inr off)"

text \<open>
  \<open>calibrate\<close>: \<open>snap\<close> is what the hardware has accumulated when the snapshot is
  read, after the calibration window.  The source divides twice, at lines 104 and 106,
  with the same operands; \<open>q\<close> is that quotient.  In \<open>q - self.center\<close> Python
  converts the int to a float first.
\<close>

definition calibrate :: "int \<times> int \<Rightarrow> state \<Rightarrow> state result" where
  "calibrate snap s =
     (case analog (snd s) of
        None \<Rightarrow> Inl (AttributeError, s)
      | Some a \<Rightarrow>
          let a1 = resetAccumulator (initAccumulator a);
              w1 = (if \<not> HALIsSimulation (fst s)
                    then Timer_delay kCalibrationSampleTime (fst s) else fst s);
              a2 = accumulate snap a1;
              (val, cnt) = getAccumulatorOutput a2;
              s1 = (w1, (snd s)\<lparr>analog := Some a2\<rparr>)
          in (case float_truediv (py_float val) (py_float cnt) of
                Inl e \<Rightarrow> Inl (e, s1)
              | Inr q \<Rightarrow>
                  let c = py_int (float_add q (1 / 2));
                      off = float_sub q (py_float c)
                  in Inr (w1, (snd s)\<lparr>center := Some c, offset := Some off,
                            analog := Some (resetAccumulator (setAccumulatorCenter c a2))\<rparr>)))"

definition reset :: "analog_gyro \<Rightarrow> analog_gyro" where
  "reset g =
     (case analog g of
        None \<Rightarrow> g
      | Some a \<Rightarrow> g\<lparr>analog := Some (resetAccumulator a)\<rparr>)"

definition free :: "state \<Rightarrow> state" where
  "free s =
     (let w1 = removeComponent (ident (snd s)) (fst s)
      in case analog (snd s) of
           None \<Rightarrow> (w1, snd s)
         | Some a \<Rightarrow>
             if channelAllocated (snd s)
             then (AnalogInput_free a w1, (snd s)\<lparr>analog := None\<rparr>)
             else (w1, snd s))"

definition getAngle :: "state \<Rightarrow> py_error + real" where
  "getAngle s =
     (case analog (snd s) of
        None \<Rightarrow> Inr 0
      | Some a \<Rightarrow>
          let (val, cnt) = getAccumulatorOutput a
          in (case offset (snd s) of
                None \<Rightarrow> Inl AttributeError
              | Some off \<Rightarrow>
                  let v = real_of_int val - real_of_int cnt * off
                  in py_truediv
                       (v * (1 / 10 ^ 9) * getLSBWeight a * real_of_int (shl1 (getAverageBits a)))
                       (getGlobalSampleRate (fst s) * voltsPerDegreePerSecond (snd s))))"

definition getRate :: "state \<Rightarrow> py_error + real" where
  "getRate s =
     (case analog (snd s) of
        None \<Rightarrow> Inr 0
      | Some a \<Rightarrow>
          (case center (snd s) of
             None \<Rightarrow> Inl AttributeError
           | Some c \<Rightarrow>
               (case offset (snd s) of
                  None \<Rightarrow> Inl AttributeError
                | Some off \<Rightarrow>
                    py_truediv
                      ((real_of_int (getAverageValue a) - (real_of_int c + off))
                         * (1 / 10 ^ 9) * getLSBWeight a)
                      (real_of_int (shl1 (getOversampleBits a))
                         * voltsPerDegreePerSecond (snd s)))))"

text \<open>
  The constructor up to the choice between calibration and presets (the part of
  \<open>__init__\<close> before its last \<open>if\<close>): \<open>ob\<close> is the identity of the new object.
\<close>

definition AnalogGyro_setup :: "hal \<Rightarrow> nat \<Rightarrow> channel_arg \<Rightarrow> state result" where
  "AnalogGyro_setup w ob ch =
     (let (a0, alloc) =
            (case ch of
               Index n \<Rightarrow> (AnalogInput n (hwLSBWeight w), True)
             | Input a \<Rightarrow> (a, False));
          a1 = setOversampleBits kOversampleBits (setAverageBits kAverageBits a0);
          sampleRate = kSamplesPerSecond * real_of_int (shl1 (kAverageBits + kOversampleBits));
          w1 = setGlobalSampleRate sampleRate w;
          w2 = (if \<not> HALIsSimulation w1 then Timer_delay 1 w1 else w1);
          g0 = \<lparr>ident = ob, analog = Some a1, channelAllocated = alloc,
                voltsPerDegreePerSecond = kDefaultVoltsPerDegreePerSecond,
                center = None, offset = None, pidSourceType = None\<rparr>
      in (case setDeadband 0 (w2, g0) of
            Inl e \<Rightarrow> Inl e
          | Inr s1 \<Rightarrow>
              let g1 = setPIDSourceType kDisplacement (snd s1);
                  w3 = HALReport (getChannel a1) (fst s1);
                  w4 = addSensorChannel ''AnalogGyro'' (getChannel a1) ob w3
              in Inr (w4, g1)))"

text \<open>The presets' branch: \<open>int(center)\<close> of an int is the int itself.\<close>

definition adopt :: "int \<Rightarrow> real \<Rightarrow> state \<Rightarrow> state result" where
  "adopt c off s =
     (case analog (snd s) of
        None \<Rightarrow> Inl (AttributeError, (fst s, (snd s)\<lparr>center := Some c, offset := Some off\<rparr>))
      | Some a \<Rightarrow>
          Inr (fst s, (snd s)\<lparr>center := Some c, offset := Some off,
                 analog := Some (resetAccumulator (setAccumulatorCenter c a))\<rparr>))"

definition AnalogGyro_init ::
  "hal \<Rightarrow> nat \<Rightarrow> channel_arg \<Rightarrow> int option \<Rightarrow> real option \<Rightarrow> int \<times> int \<Rightarrow> state result" where
  "AnalogGyro_init w ob ch c_arg off_arg snap =
     (case AnalogGyro_setup w ob ch of
        Inl e \<Rightarrow> Inl e
      | Inr s \<Rightarrow>
          if c_arg = None \<or> off_arg = None then calibrate snap s
          else adopt (the c_arg) (the off_arg) s)"

subsection \<open>Reading a result\<close>

definition result_error :: "'a result \<Rightarrow> py_error option" where
  "result_error r = (case r of Inl e \<Rightarrow> Some (fst e) | Inr _ \<Rightarrow> None)"

definition result_state :: "state result \<Rightarrow> state" where
  "result_state r = (case r of Inl e \<Rightarrow> snd e | Inr s \<Rightarrow> s)"

definition result_center :: "state result \<Rightarrow> int option" where
  "result_center r = center (snd (result_state r))"

definition result_offset :: "state result \<Rightarrow> real option" where
  "result_offset r = offset (snd (result_state r))"

definition result_analog :: "state result \<Rightarrow> analog_input option" where
  "result_analog r = analog (snd (result_state r))"

text \<open>The mean of a snapshot as \<open>calibrate\<close> computes it:
  \<open>float(value) / float(count)\<close>.\<close>

definition computed_mean :: "int \<Rightarrow> int \<Rightarrow> real" where
  "computed_mean val cnt = round_double (py_float val / py_float cnt)"

text \<open>Rounding to the nearest integer, ties toward positive infinity.\<close>

definition round_half_up :: "real \<Rightarrow> int" where
  "round_half_up x = \<lfloor>x + 1 / 2\<rfloor>"

text \<open>The factor that turns a corrected accumulator value into degrees.\<close>

definition conversion_factor :: "hal \<Rightarrow> analog_gyro \<Rightarrow> analog_input \<Rightarrow> real" where
  "conversion_factor w g a =
     (1 / 10 ^ 9) * getLSBWeight a * real_of_int (shl1 (getAverageBits a))
       / (getGlobalSampleRate w * voltsPerDegreePerSecond g)"

subsection \<open>A test bench\<close>

text \<open>
  The hardware of the specification's example: an LSB weight of 7.6295e-6 volts.
  \<open>fresh_hal\<close> is a simulated process before any driver exists, \<open>robot_hal\<close> the
  same on real hardware; \<open>bench_hal\<close> and \<open>bench_gyro\<close> are the process and the
  driver on channel 0 when the constructor reaches its last \<open>if\<close>.
\<close>

definition fresh_hal :: hal where
  "fresh_hal =
     \<lparr>simulation = True, hwLSBWeight = 76295 / 10 ^ 10, globalSampleRate = 0,
      delays = [], usageReports = [], liveWindow = [], freedChannels = []\<rparr>"

definition robot_hal :: hal where
  "robot_hal = fresh_hal\<lparr>simulation := False\<rparr>"

definition bench_hal :: hal where
  "bench_hal =
     \<lparr>simulation = True, hwLSBWeight = 76295 / 10 ^ 10, globalSampleRate = 51200,
      delays = [], usageReports = [0], liveWindow = [(1, ''AnalogGyro'', 0)],
      freedChannels = []\<rparr>"

definition bench_input :: analog_input where
  "bench_input =
     \<lparr>channel = 0, averageBits = 0, oversampleBits = 10, accumulatorArmed = False,
      accumulatorCenter = 0, accumulatorDeadband = 0, accumulatorValue = 0,
      accumulatorCount = 0, averageValue = 0, lsbWeight = 76295 / 10 ^ 10\<rparr>"

definition bench_gyro :: analog_gyro where
  "bench_gyro =
     \<lparr>ident = 1, analog = Some bench_input, channelAllocated = True,
      voltsPerDegreePerSecond = 7 / 1000, center = None, offset = None,
      pidSourceType = Some kDisplacement\<rparr>"

text \<open>The driver after calibrating on the snapshot (500000000, 1000).\<close>

definition calibrated_input :: analog_input where
  "calibrated_input = bench_input\<lparr>accumulatorArmed := True, accumulatorCenter := 500000\<rparr>"

definition calibrated_gyro :: analog_gyro where
  "calibrated_gyro =
     bench_gyro\<lparr>center := Some 500000, offset := Some 0, analog := Some calibrated_input\<rparr>"

text \<open>The calibrated driver once the hardware has accumulated (505000000, 1010) and
  averages 500100, and the same driver on a channel that the caller owns.\<close>

definition turned_input :: analog_input where
  "turned_input = accumulate (505000000, 1010) (sample 500100 calibrated_input)"

definition turned_gyro :: analog_gyro where
  "turned_gyro = calibrated_gyro\<lparr>analog := Some turned_input\<rparr>"

definition borrowing_gyro :: analog_gyro where
  "borrowing_gyro = turned_gyro\<lparr>channelAllocated := False\<rparr>"

section \<open>Properties\<close>

subsection \<open>Unfolding the collaborators\<close>

lemmas chan_defs = AnalogInput_def setAverageBits_def setOversampleBits_def initAccumulator_def
  resetAccumulator_def setAccumulatorCenter_def setAccumulatorDeadband_def getAccumulatorOutput_def
  getAverageValue_def getLSBWeight_def getAverageBits_def getOversampleBits_def getChannel_def
  accumulate_def sample_def

lemmas hal_defs = HALIsSimulation_def Timer_delay_def setGlobalSampleRate_def getGlobalSampleRate_def
  HALReport_def addSensorChannel_def removeComponent_def AnalogInput_free_def

lemmas res_defs = result_error_def result_state_def result_center_def result_offset_def result_analog_def

subsection \<open>Rounding to a double\<close>

lemma binade_bounds:
  assumes "0 < x"
  shows "2 powi binade x \<le> x" and "x < 2 powi (binade x + 1)"
proof -
  have "2 powi binade x \<le> x \<and> x < 2 powi (binade x + 1)"
  proof (cases "1 \<le> x")
    case True
    then have p: "0 < \<lfloor>x\<rfloor>" by linarith
    let ?b = "bitlen \<lfloor>x\<rfloor>"
    have b: "2 ^ nat (?b - 1) \<le> \<lfloor>x\<rfloor>" "\<lfloor>x\<rfloor> < 2 ^ nat ?b"
      using bitlen_bounds [OF p] by simp_all
    have b1: "1 \<le> ?b"
      using p by (simp add: bitlen_alt_def)
    have e: "binade x = ?b - 1"
      using True by (simp add: binade_def)
    have "(2::real) powi (?b - 1) = 2 ^ nat (?b - 1)"
      using b1 by (simp add: power_int_def)
    also have "\<dots> = of_int (2 ^ nat (?b - 1))" by simp
    also have "\<dots> \<le> of_int \<lfloor>x\<rfloor>"
      using b(1) by (simp only: of_int_le_iff)
    also have "\<dots> \<le> x" by simp
    finally have lo: "2 powi (?b - 1) \<le> x" .
    have "\<lfloor>x\<rfloor> + 1 \<le> 2 ^ nat ?b"
      using b(2) by simp
    then have "real_of_int (\<lfloor>x\<rfloor> + 1) \<le> of_int (2 ^ nat ?b)"
      by (simp only: of_int_le_iff)
    moreover have "x < real_of_int (\<lfloor>x\<rfloor> + 1)" by linarith
    ultimately have "x < of_int (2 ^ nat ?b)" by linarith
    also have "\<dots> = 2 powi ?b"
      using b1 by (simp add: power_int_def)
    finally have "x < 2 powi ?b" .
    with lo e show ?thesis by simp
  next
    case False
    with assms have x: "0 < x" "x < 1" by simp_all
    let ?c = "\<lceil>1 / x\<rceil>"
    have inv: "1 < 1 / x"
      using x by (simp add: field_simps)
    then have p: "0 < ?c - 1" by linarith
    let ?b = "bitlen (?c - 1)"
    have b: "2 ^ nat (?b - 1) \<le> ?c - 1" "?c - 1 < 2 ^ nat ?b"
      using bitlen_bounds [OF p] by simp_all
    have b1: "1 \<le> ?b"
      using p by (simp add: bitlen_alt_def)
    have e: "binade x = - ?b"
      using False by (simp add: binade_def)
    have "?c \<le> 2 ^ nat ?b"
      using b(2) by simp
    then have cb: "real_of_int ?c \<le> of_int (2 ^ nat ?b)"
      by (simp only: of_int_le_iff)
    have "1 / x \<le> real_of_int ?c"
      by (rule le_of_int_ceiling)
    also note cb
    also have "real_of_int (2 ^ nat ?b) = 2 ^ nat ?b" by simp
    finally have "1 / x \<le> 2 ^ nat ?b" .
    then have "1 \<le> 2 ^ nat ?b * x"
      using x by (simp add: field_simps)
    then have "1 / 2 ^ nat ?b \<le> x"
      by (simp add: field_simps)
    moreover have "(2::real) powi (- ?b) = 1 / 2 ^ nat ?b"
      using b1 by (simp add: power_int_def field_simps)
    ultimately have lo: "2 powi (- ?b) \<le> x" by simp
    have "real_of_int (2 ^ nat (?b - 1)) \<le> of_int (?c - 1)"
      using b(1) by (simp only: of_int_le_iff)
    moreover have "real_of_int (?c - 1) < 1 / x"
      by linarith
    ultimately have "real_of_int (2 ^ nat (?b - 1)) < 1 / x" by linarith
    then have "2 ^ nat (?b - 1) < 1 / x" by simp
    then have "2 ^ nat (?b - 1) * x < 1"
      using x by (simp add: field_simps)
    then have "x < 1 / 2 ^ nat (?b - 1)"
      by (simp add: field_simps)
    moreover have "(2::real) powi (- ?b + 1) = 1 / 2 ^ nat (?b - 1)"
    proof (cases "?b = 1")
      case True
      then show ?thesis by simp
    next
      case False
      with b1 have "- ?b + 1 < 0" by simp
      then show ?thesis
        using b1 by (simp add: power_int_def field_simps)
    qed
    ultimately have "x < 2 powi (- ?b + 1)" by simp
    with lo e show ?thesis by simp
  qed
  then show "2 powi binade x \<le> x" and "x < 2 powi (binade x + 1)" by simp_all
qed

lemma round_half_even_floor_ceiling:
  shows "\<lfloor>y\<rfloor> \<le> round_half_even y" and "round_half_even y \<le> \<lceil>y\<rceil>"
proof -
  have "\<lfloor>y\<rfloor> \<le> round_half_even y \<and> round_half_even y \<le> \<lceil>y\<rceil>"
  proof (cases "y = of_int \<lfloor>y\<rfloor>")
    case True
    then show ?thesis
      by (simp add: round_half_even_def Let_def)
  next
    case False
    then have "\<lceil>y\<rceil> = \<lfloor>y\<rfloor> + 1"
      by (simp add: ceiling_altdef)
    then show ?thesis
      by (simp add: round_half_even_def Let_def)
  qed
  then show "\<lfloor>y\<rfloor> \<le> round_half_even y" and "round_half_even y \<le> \<lceil>y\<rceil>" by simp_all
qed

lemma round_half_even_near: "\<bar>real_of_int (round_half_even y) - y\<bar> \<le> 1 / 2"
  unfolding round_half_even_def Let_def
  by (auto; linarith)

lemma round_half_even_of_int [simp]: "round_half_even (of_int k) = k"
  by (simp add: round_half_even_def)

lemma round_half_even_minus: "round_half_even (- y) = - round_half_even y"
proof (cases "y = of_int \<lfloor>y\<rfloor>")
  case True
  then obtain k where "y = of_int k" ..
  then have "round_half_even (- y) = round_half_even (of_int (- k))" by simp
  also have "\<dots> = - k" by (rule round_half_even_of_int)
  finally show ?thesis using \<open>y = of_int k\<close> by simp
next
  case False
  then have c: "\<lceil>y\<rceil> = \<lfloor>y\<rfloor> + 1"
    by (simp add: ceiling_altdef)
  have f: "\<lfloor>- y\<rfloor> = - \<lfloor>y\<rfloor> - 1"
    using c by (simp add: ceiling_def)
  have r: "0 < y - of_int \<lfloor>y\<rfloor>"
    using False of_int_floor_le [of y] by linarith
  show ?thesis
    unfolding round_half_even_def Let_def f
    using r by (auto; presburger?)
qed

lemma round_double_zero [simp]: "round_double 0 = 0"
  by (simp add: round_double_def)

lemma round_double_minus: "round_double (- x) = - round_double x"
  by (simp add: round_double_def round_half_even_minus)

text \<open>The significand of a positive number lies between 2^52 and 2^53.\<close>

lemma significand_bounds:
  assumes "0 < x"
  shows "2 ^ 52 \<le> x / 2 powi (binade x - 52)" and "x / 2 powi (binade x - 52) < 2 ^ 53"
proof -
  have u: "(2::real) powi (binade x - 52) = 2 powi binade x / 2 ^ 52"
    by (simp add: power_int_diff)
  have p: "(0::real) < 2 powi binade x" by simp
  have "2 ^ 52 * 2 powi binade x \<le> 2 ^ 52 * x"
    using binade_bounds(1) [OF assms] by simp
  then show "2 ^ 52 \<le> x / 2 powi (binade x - 52)"
    using p by (simp add: u field_simps)
  have "x < 2 * 2 powi binade x"
    using binade_bounds(2) [OF assms] by (simp add: power_int_add)
  then show "x / 2 powi (binade x - 52) < 2 ^ 53"
    using p by (simp add: u field_simps)
qed

lemma round_double_pos:
  assumes "0 < x"
  shows "round_double x = of_int (round_half_even (x / 2 powi (binade x - 52))) * 2 powi (binade x - 52)"
  using assms by (simp add: round_double_def)

lemma round_significand_bounds:
  assumes "0 < x"
  shows "2 ^ 52 \<le> round_half_even (x / 2 powi (binade x - 52))"
    and "round_half_even (x / 2 powi (binade x - 52)) \<le> 2 ^ 53"
proof -
  let ?y = "x / 2 powi (binade x - 52)"
  have "real_of_int (2 ^ 52) \<le> ?y"
    using significand_bounds(1) [OF assms] by simp
  then have "2 ^ 52 \<le> \<lfloor>?y\<rfloor>"
    by (simp only: le_floor_iff)
  then show "2 ^ 52 \<le> round_half_even ?y"
    using round_half_even_floor_ceiling(1) [of ?y] by linarith
  have "?y \<le> real_of_int (2 ^ 53)"
    using significand_bounds(2) [OF assms] by simp
  then have "\<lceil>?y\<rceil> \<le> 2 ^ 53"
    by (simp only: ceiling_le_iff)
  then show "round_half_even ?y \<le> 2 ^ 53"
    using round_half_even_floor_ceiling(2) [of ?y] by linarith
qed

lemma is_doubleI: "\<bar>m\<bar> \<le> 2 ^ 53 \<Longrightarrow> x = of_int m * 2 powi j \<Longrightarrow> is_double x"
  by (auto simp: is_double_def)

lemma is_double_minus: "is_double x \<Longrightarrow> is_double (- x)"
proof -
  assume "is_double x"
  then obtain m j where "\<bar>m\<bar> \<le> 2 ^ 53" "x = of_int m * 2 powi j"
    by (auto simp: is_double_def)
  then have "\<bar>- m\<bar> \<le> 2 ^ 53" "- x = of_int (- m) * 2 powi j" by simp_all
  then show ?thesis by (rule is_doubleI)
qed

lemma is_double_round_double: "is_double (round_double x)"
proof -
  have pos: "is_double (round_double x)" if "0 < x" for x
  proof (rule is_doubleI)
    show "\<bar>round_half_even (x / 2 powi (binade x - 52))\<bar> \<le> 2 ^ 53"
      using round_significand_bounds [OF that] by simp
    show "round_double x = of_int (round_half_even (x / 2 powi (binade x - 52))) * 2 powi (binade x - 52)"
      by (rule round_double_pos [OF that])
  qed
  consider "0 < x" | "x = 0" | "x < 0" by linarith
  then show ?thesis
  proof cases
    case 1
    then show ?thesis by (rule pos)
  next
    case 2
    have "\<bar>0::int\<bar> \<le> 2 ^ 53" "round_double x = of_int 0 * 2 powi 0"
      using 2 by simp_all
    then show ?thesis by (rule is_doubleI)
  next
    case 3
    then have "is_double (round_double (- x))" by (intro pos) simp
    then have "is_double (- round_double (- x))" by (rule is_double_minus)
    then show ?thesis by (simp add: round_double_minus)
  qed
qed

text \<open>Rounding does not cross a double.\<close>

lemma grid_multiple:
  assumes "i \<le> j"
  shows "\<exists>k. real_of_int m * 2 powi j = of_int k * 2 powi i \<and> \<bar>k\<bar> = \<bar>m\<bar> * 2 ^ nat (j - i)"
proof -
  have "(2::real) powi j = 2 powi (j - i) * 2 powi i"
    by (simp add: power_int_diff)
  also have "(2::real) powi (j - i) = of_int (2 ^ nat (j - i))"
    using assms by (simp add: power_int_def)
  finally have "real_of_int m * 2 powi j = of_int (m * 2 ^ nat (j - i)) * 2 powi i"
    by simp
  moreover have "\<bar>m * 2 ^ nat (j - i)\<bar> = \<bar>m\<bar> * 2 ^ nat (j - i)"
    by (simp add: abs_mult)
  ultimately show ?thesis by blast
qed

lemma round_double_ge_pos:
  assumes x: "0 < x" and m: "\<bar>m\<bar> \<le> 2 ^ 53" and le: "of_int m * 2 powi j \<le> x"
  shows "of_int m * 2 powi j \<le> round_double x"
proof -
  let ?u = "(2::real) powi (binade x - 52)"
  let ?R = "round_half_even (x / ?u)"
  have u: "0 < ?u" by simp
  have rd: "round_double x = of_int ?R * ?u"
    by (rule round_double_pos [OF x])
  have fl: "of_int \<lfloor>x / ?u\<rfloor> * ?u \<le> of_int ?R * ?u"
    using round_half_even_floor_ceiling(1) [of "x / ?u"] u by simp
  show ?thesis
  proof (cases "binade x - 52 \<le> j")
    case True
    from grid_multiple [OF True, of m] obtain k where
      k: "real_of_int m * 2 powi j = of_int k * ?u" by blast
    have "of_int k * ?u \<le> x" using le k by simp
    then have "of_int k \<le> x / ?u"
      using u by (simp add: field_simps)
    then have "k \<le> \<lfloor>x / ?u\<rfloor>" by (simp only: le_floor_iff)
    then have "real_of_int k * ?u \<le> of_int \<lfloor>x / ?u\<rfloor> * ?u"
      using u by simp
    with fl k rd show ?thesis by linarith
  next
    case False
    then have j: "j \<le> binade x - 53" by simp
    have "real_of_int m \<le> 2 ^ 53"
    proof -
      have "m \<le> 2 ^ 53" using m by simp
      then have "real_of_int m \<le> of_int (2 ^ 53)" by (simp only: of_int_le_iff)
      then show ?thesis by simp
    qed
    then have "real_of_int m * 2 powi j \<le> 2 ^ 53 * 2 powi j"
      by simp
    also have "\<dots> \<le> 2 ^ 53 * 2 powi (binade x - 53)"
      using j by (simp add: power_int_increasing)
    also have "\<dots> = 2 ^ 52 * ?u"
      by (simp add: power_int_diff)
    also have "\<dots> \<le> of_int ?R * ?u"
    proof -
      have "real_of_int (2 ^ 52) \<le> of_int ?R"
        using round_significand_bounds(1) [OF x] by (simp only: of_int_le_iff)
      then show ?thesis using u by simp
    qed
    finally show ?thesis using rd by simp
  qed
qed

lemma round_double_le_pos:
  assumes x: "0 < x" and m: "\<bar>m\<bar> \<le> 2 ^ 53" and le: "x \<le> of_int m * 2 powi j"
  shows "round_double x \<le> of_int m * 2 powi j"
proof -
  let ?u = "(2::real) powi (binade x - 52)"
  let ?R = "round_half_even (x / ?u)"
  have u: "0 < ?u" by simp
  have rd: "round_double x = of_int ?R * ?u"
    by (rule round_double_pos [OF x])
  have cl: "of_int ?R * ?u \<le> of_int \<lceil>x / ?u\<rceil> * ?u"
    using round_half_even_floor_ceiling(2) [of "x / ?u"] u by simp
  show ?thesis
  proof (cases "binade x - 52 \<le> j")
    case True
    from grid_multiple [OF True, of m] obtain k where
      k: "real_of_int m * 2 powi j = of_int k * ?u" by blast
    have "x \<le> of_int k * ?u" using le k by simp
    then have "x / ?u \<le> of_int k"
      using u by (simp add: field_simps)
    then have "\<lceil>x / ?u\<rceil> \<le> k" by (simp only: ceiling_le_iff)
    then have "real_of_int \<lceil>x / ?u\<rceil> * ?u \<le> of_int k * ?u"
      using u by simp
    with cl k rd show ?thesis by linarith
  next
    case False
    then have j: "j \<le> binade x - 53" by simp
    have "real_of_int m \<le> 2 ^ 53"
    proof -
      have "m \<le> 2 ^ 53" using m by simp
      then have "real_of_int m \<le> of_int (2 ^ 53)" by (simp only: of_int_le_iff)
      then show ?thesis by simp
    qed
    then have "real_of_int m * 2 powi j \<le> 2 ^ 53 * 2 powi j"
      by simp
    also have "\<dots> \<le> 2 ^ 53 * 2 powi (binade x - 53)"
      using j by (simp add: power_int_increasing)
    also have "\<dots> = 2 powi binade x"
      by (simp add: power_int_diff)
    finally have "real_of_int m * 2 powi j \<le> 2 powi binade x" .
    with le binade_bounds(1) [OF x] have eq: "x = 2 powi binade x" "real_of_int m * 2 powi j = x"
      by linarith+
    have "x / ?u = 2 ^ 52"
      by (subst eq(1)) (simp add: power_int_diff)
    then have "x / ?u = of_int (2 ^ 52)" by simp
    then have "?R = 2 ^ 52"
      by (simp only: round_half_even_of_int)
    then have "round_double x = 2 ^ 52 * ?u"
      using rd by simp
    also have "\<dots> = 2 powi binade x"
      by (simp add: power_int_diff)
    finally show ?thesis using eq by simp
  qed
qed

lemma round_double_ge:
  assumes "is_double r" and "r \<le> x"
  shows "r \<le> round_double x"
proof -
  from assms(1) obtain m j where m: "\<bar>m\<bar> \<le> 2 ^ 53" and r: "r = of_int m * 2 powi j"
    by (auto simp: is_double_def)
  consider "0 < x" | "x = 0" | "x < 0" by linarith
  then show ?thesis
  proof cases
    case 1
    then show ?thesis
      using round_double_ge_pos [OF 1 m, of j] assms(2) r by simp
  next
    case 2
    then show ?thesis using assms(2) by simp
  next
    case 3
    then have p: "0 < - x" by simp
    have am: "\<bar>- m\<bar> \<le> 2 ^ 53" using m by simp
    have "- x \<le> of_int (- m) * 2 powi j"
      using assms(2) r by simp
    from round_double_le_pos [OF p am this] show ?thesis
      using r by (simp add: round_double_minus)
  qed
qed

lemma round_double_le:
  assumes "is_double r" and "x \<le> r"
  shows "round_double x \<le> r"
proof -
  have "- r \<le> round_double (- x)"
    using assms by (intro round_double_ge is_double_minus) simp_all
  then show ?thesis
    by (simp add: round_double_minus)
qed

lemma round_double_fix:
  assumes "is_double r"
  shows "round_double r = r"
  using round_double_ge [OF assms, of r] round_double_le [OF assms, of r] by simp

lemma round_double_idem: "round_double (round_double x) = round_double x"
  by (rule round_double_fix) (rule is_double_round_double)

lemma round_double_error_pos:
  assumes "0 < x"
  shows "\<bar>round_double x - x\<bar> \<le> x / 2 ^ 53"
proof -
  let ?u = "(2::real) powi (binade x - 52)"
  let ?R = "round_half_even (x / ?u)"
  have u: "0 < ?u" by simp
  have "round_double x - x = (of_int ?R - x / ?u) * ?u"
    using u by (simp add: round_double_pos [OF assms] field_simps)
  then have "\<bar>round_double x - x\<bar> = \<bar>of_int ?R - x / ?u\<bar> * ?u"
    using u by (simp add: abs_mult)
  also have "\<dots> \<le> 1 / 2 * ?u"
    using round_half_even_near [of "x / ?u"] u by (intro mult_right_mono) simp_all
  also have "\<dots> = 2 powi binade x / 2 ^ 53"
    by (simp add: power_int_diff)
  also have "\<dots> \<le> x / 2 ^ 53"
    using binade_bounds(1) [OF assms] by (simp add: divide_right_mono)
  finally show ?thesis .
qed

lemma round_double_error: "\<bar>round_double x - x\<bar> \<le> \<bar>x\<bar> / 2 ^ 53"
proof -
  consider "0 < x" | "x = 0" | "x < 0" by linarith
  then show ?thesis
  proof cases
    case 1
    then show ?thesis using round_double_error_pos [OF 1] by simp
  next
    case 2
    then show ?thesis by simp
  next
    case 3
    then have "\<bar>round_double (- x) - (- x)\<bar> \<le> (- x) / 2 ^ 53"
      by (intro round_double_error_pos) simp
    then show ?thesis
      using 3 by (simp add: round_double_minus abs_minus_commute)
  qed
qed

text \<open>Doubles we meet.\<close>

lemma is_double_of_int:
  assumes "\<bar>k\<bar> \<le> 2 ^ 53"
  shows "is_double (of_int k)"
  using assms by (rule is_doubleI [where j = 0]) simp

lemma is_double_quarters:
  assumes "\<bar>k\<bar> \<le> 2 ^ 53"
  shows "is_double (of_int k / 4)"
  using assms by (rule is_doubleI [where j = "- 2"]) (simp add: power_int_minus)

lemma is_double_halves:
  assumes "\<bar>k\<bar> \<le> 2 ^ 53"
  shows "is_double (of_int k / 2)"
  using assms by (rule is_doubleI [where j = "- 1"]) (simp add: power_int_minus)

lemma round_double_of_int:
  assumes "\<bar>k\<bar> \<le> 2 ^ 53"
  shows "round_double (of_int k) = of_int k"
  by (rule round_double_fix) (rule is_double_of_int [OF assms])

subsection \<open>Truncation, and doubles on a grid\<close>

lemma py_int_of_int [simp]: "py_int (of_int k) = k"
  by (simp add: py_int_def)

lemma py_int_abs_le: "\<bar>real_of_int (py_int x)\<bar> \<le> \<bar>x\<bar>"
  unfolding py_int_def by (auto; linarith)

lemma round_double_eq_0_iff: "round_double x = 0 \<longleftrightarrow> x = 0"
proof
  assume z: "round_double x = 0"
  show "x = 0"
  proof (rule ccontr)
    assume "x \<noteq> 0"
    then have "\<bar>round_double x - x\<bar> = \<bar>x\<bar>" "0 < \<bar>x\<bar>" using z by simp_all
    moreover have "\<bar>x\<bar> / 2 ^ 53 < \<bar>x\<bar>"
      using \<open>0 < \<bar>x\<bar>\<close> by (simp add: field_simps)
    ultimately show False
      using round_double_error [of x] by linarith
  qed
qed simp

lemma two_powi_less_cancel:
  assumes "(2::real) powi a < 2 powi b"
  shows "a < b"
proof (rule ccontr)
  assume "\<not> a < b"
  then have "(2::real) powi b \<le> 2 powi a"
    by (intro power_int_increasing) simp_all
  with assms show False by simp
qed

lemma two_powi_le_cancel:
  assumes "(2::real) powi a \<le> 2 powi b"
  shows "a \<le> b"
proof (rule ccontr)
  assume "\<not> a \<le> b"
  then have "(2::real) powi b < 2 powi a"
    by (intro power_int_strict_increasing) simp_all
  with assms show False by simp
qed

text \<open>The integer part of a double is a double.\<close>

lemma is_double_py_int:
  assumes "is_double s"
  shows "is_double (of_int (py_int s))"
proof -
  from assms obtain m j where m: "\<bar>m\<bar> \<le> 2 ^ 53" and s: "s = of_int m * 2 powi j"
    by (auto simp: is_double_def)
  show ?thesis
  proof (cases "0 \<le> j")
    case True
    then have "s = of_int (m * 2 ^ nat j)"
      by (simp add: s power_int_def)
    then have "of_int (py_int s) = s"
      by (simp only: py_int_of_int)
    then show ?thesis using assms by simp
  next
    case False
    then have "(2::real) powi j \<le> 2 powi 0"
      by (intro power_int_increasing) simp_all
    then have "(2::real) powi j \<le> 1" by simp
    then have "\<bar>s\<bar> \<le> \<bar>real_of_int m\<bar>"
      by (simp add: s abs_mult mult_left_le)
    moreover have "\<bar>real_of_int m\<bar> \<le> of_int (2 ^ 53)"
      using m by (metis of_int_abs of_int_le_iff)
    ultimately have "\<bar>real_of_int (py_int s)\<bar> \<le> of_int (2 ^ 53)"
      using py_int_abs_le [of s] by linarith
    then have "\<bar>py_int s\<bar> \<le> 2 ^ 53"
      by (metis of_int_abs of_int_le_iff)
    then show ?thesis by (rule is_double_of_int)
  qed
qed

text \<open>A positive double is a multiple of the unit of any binade below it.\<close>

lemma double_grid:
  assumes d: "is_double q" and p: "2 powi k \<le> q"
  shows "\<exists>i. q = of_int i * 2 powi (k - 52)"
proof -
  have "(0::real) < 2 powi k" by simp
  with p have q: "0 < q" by linarith
  have "2 powi k < (2::real) powi (binade q + 1)"
    using p binade_bounds(2) [OF q] by linarith
  then have "k < binade q + 1"
    by (rule two_powi_less_cancel)
  then have le: "k - 52 \<le> binade q - 52" by simp
  have "q = round_double q"
    using round_double_fix [OF d] by simp
  also have "\<dots> = of_int (round_half_even (q / 2 powi (binade q - 52))) * 2 powi (binade q - 52)"
    by (rule round_double_pos [OF q])
  finally obtain M where "q = of_int M * 2 powi (binade q - 52)" ..
  with grid_multiple [OF le, of M] show ?thesis by metis
qed

subsection \<open>The center of a mean\<close>

lemma center_below_half:
  assumes "- 1 \<le> q" and "q < - (1 / 2)"
  shows "py_int (round_double (q + 1 / 2)) = 0"
proof -
  let ?s = "round_double (q + 1 / 2)"
  have "is_double (of_int (- 1) / 2)" by (rule is_double_halves) simp
  then have "is_double (- (1 / 2))" by simp
  then have lo: "- (1 / 2) \<le> ?s"
    using assms(1) by (intro round_double_ge) simp_all
  have "is_double (of_int 0)" by (rule is_double_of_int) simp
  then have "is_double 0" by simp
  then have hi: "?s \<le> 0"
    using assms(2) by (intro round_double_le) simp_all
  show ?thesis
    using lo hi unfolding py_int_def by (auto; linarith)
qed

lemma is_double_below_one: "is_double (1 - 1 / 2 ^ 53)"
proof (rule is_doubleI)
  show "\<bar>2 ^ 53 - 1 :: int\<bar> \<le> 2 ^ 53" by simp
  show "1 - 1 / 2 ^ 53 = real_of_int (2 ^ 53 - 1) * 2 powi (- 53)"
    by (simp add: power_int_minus field_simps)
qed

lemma center_around_zero:
  assumes "- (1 / 2) \<le> q" and "q < 1 / 2"
  shows "py_int (round_double (q + 1 / 2)) = 0 \<or>
         (py_int (round_double (q + 1 / 2)) = 1 \<and> 1 / 2 - 1 / 2 ^ 53 < q)"
proof -
  let ?s = "round_double (q + 1 / 2)"
  have "is_double (of_int 0)" by (rule is_double_of_int) simp
  then have "is_double 0" by simp
  then have lo: "0 \<le> ?s"
    using assms(1) by (intro round_double_ge) simp_all
  have "is_double (of_int 1)" by (rule is_double_of_int) simp
  then have "is_double 1" by simp
  then have hi: "?s \<le> 1"
    using assms(2) by (intro round_double_le) simp_all
  show ?thesis
  proof (cases "q \<le> 1 / 2 - 1 / 2 ^ 53")
    case True
    then have "?s \<le> 1 - 1 / 2 ^ 53"
      by (intro round_double_le is_double_below_one) simp
    then have "?s < 1" by simp
    with lo have "\<lfloor>?s\<rfloor> = 0" by linarith
    then show ?thesis using lo by (simp add: py_int_def)
  next
    case False
    have "\<lfloor>?s\<rfloor> = 0 \<or> \<lfloor>?s\<rfloor> = 1"
      using lo hi by linarith
    then show ?thesis using lo False by (auto simp: py_int_def)
  qed
qed

lemma double_below_half:
  assumes d: "is_double q" and lt: "q < 1 / 2" and ne: "q \<noteq> 1 / 2 - 1 / 2 ^ 54"
  shows "q \<le> 1 / 2 - 1 / 2 ^ 53"
proof (cases "q < 1 / 4")
  case True
  then show ?thesis by simp
next
  case False
  then have "2 powi (- 2) \<le> q"
    by (simp add: power_int_minus)
  from double_grid [OF d this] obtain i where q: "q = of_int i * 2 powi (- 54)"
    by auto
  then have q': "q = of_int i / 2 ^ 54"
    by (simp add: power_int_minus field_simps)
  have "real_of_int i < of_int (2 ^ 53)"
    using lt by (simp add: q' field_simps)
  then have "i < 2 ^ 53" by (simp only: of_int_less_iff)
  moreover have "i \<noteq> 2 ^ 53 - 1"
  proof
    assume "i = 2 ^ 53 - 1"
    then have "q = 1 / 2 - 1 / 2 ^ 54"
      by (simp add: q' field_simps)
    with ne show False by simp
  qed
  ultimately have "i \<le> 2 ^ 53 - 2" by simp
  then have "real_of_int i \<le> of_int (2 ^ 53 - 2)"
    by (simp only: of_int_le_iff)
  then show ?thesis
    by (simp add: q' field_simps)
qed

lemma center_from_half:
  assumes d: "is_double q" and lo: "1 / 2 \<le> q" and hi: "q < 2 ^ 52"
  shows "py_int (round_double (q + 1 / 2)) = \<lfloor>q + 1 / 2\<rfloor>"
proof -
  define e where "e = binade q"
  define u :: real where "u = 2 powi (e - 52)"
  define P :: real where "P = 2 powi (e + 1)"
  have q0: "0 < q" using lo by simp
  have b: "2 powi e \<le> q" "q < P"
    using binade_bounds [OF q0] by (simp_all add: e_def P_def)
  have "(2::real) powi e < 2 powi 52"
    using b(1) hi by simp
  then have e_hi: "e \<le> 51"
    using two_powi_less_cancel [of e 52] by simp
  have "(2::real) powi (- 1) < 2 powi (e + 1)"
    using lo b(2) by (simp add: P_def power_int_minus)
  then have e_lo: "- 1 \<le> e"
    using two_powi_less_cancel [of "- 1" "e + 1"] by simp
  have u0: "0 < u" by (simp add: u_def)
  have Pu: "P = 2 ^ 53 * u"
    by (simp add: P_def u_def power_int_diff power_int_add)
  from double_grid [OF d b(1)] obtain i where i: "q = of_int i * u"
    by (auto simp: u_def)
  define h :: int where "h = 2 ^ nat (51 - e)"
  have half: "1 / 2 = of_int h * u"
  proof -
    have "(2::real) powi (- 1) = 2 powi (51 - e) * 2 powi (e - 52)"
      by (simp flip: power_int_add)
    moreover have "(2::real) powi (51 - e) = of_int h"
      using e_hi by (simp add: h_def power_int_def)
    ultimately show ?thesis
      by (simp add: u_def power_int_minus)
  qed
  have y: "q + 1 / 2 = of_int (i + h) * u"
    by (simp add: i half algebra_simps)
  have y0: "0 \<le> q + 1 / 2" using lo by simp
  show ?thesis
  proof (cases "q + 1 / 2 \<le> P")
    case True
    then have "of_int (i + h) * u \<le> of_int (2 ^ 53) * u"
      using y Pu by simp
    then have "real_of_int (i + h) \<le> of_int (2 ^ 53)"
      using u0 by (simp only: mult_le_cancel_right_pos)
    then have k_hi: "i + h \<le> 2 ^ 53" by (simp only: of_int_le_iff)
    have "0 \<le> of_int (i + h) * u"
      using y y0 by simp
    then have "0 \<le> real_of_int (i + h)"
      using u0 by (simp add: zero_le_mult_iff)
    then have "0 \<le> i + h" by simp
    with k_hi have "\<bar>i + h\<bar> \<le> 2 ^ 53" by simp
    then have "is_double (q + 1 / 2)"
      by (rule is_doubleI [where j = "e - 52"]) (simp add: y u_def)
    then have "round_double (q + 1 / 2) = q + 1 / 2"
      by (rule round_double_fix)
    then show ?thesis
      using y0 by (simp add: py_int_def)
  next
    case False
    then have gt: "P < q + 1 / 2" by simp
    have e50: "e \<le> 50"
    proof (rule ccontr)
      assume "\<not> e \<le> 50"
      with e_hi have e51: "e = 51" by simp
      then have uh: "u = 1 / 2" "h = 1" "P = 2 ^ 52"
        by (simp_all add: u_def h_def P_def power_int_minus)
      have "real_of_int i < of_int (2 ^ 53)"
        using hi by (simp add: i uh)
      then have "i < 2 ^ 53" by (simp only: of_int_less_iff)
      then have "i + 1 \<le> 2 ^ 53" by simp
      then have "real_of_int (i + 1) \<le> of_int (2 ^ 53)"
        by (simp only: of_int_le_iff)
      then have "q + 1 / 2 \<le> 2 ^ 52"
        by (simp add: i uh)
      with gt uh show False by simp
    qed
    define N :: int where "N = 2 ^ nat (e + 1)"
    have PN: "P = of_int N"
      using e_lo by (simp add: P_def N_def power_int_def)
    have N_hi: "N \<le> 2 ^ 51"
    proof -
      have "nat (e + 1) \<le> 51" using e50 by simp
      then have "(2::int) ^ nat (e + 1) \<le> 2 ^ 51"
        by (intro power_increasing) simp_all
      then show ?thesis by (simp add: N_def)
    qed
    have N_lo: "0 < N" by (simp add: N_def)
    have dP: "is_double P"
      unfolding PN using N_hi N_lo by (intro is_double_of_int) simp
    have "is_double (of_int (2 * N + 1) / 2)"
      using N_hi N_lo by (intro is_double_halves) simp
    then have dP2: "is_double (P + 1 / 2)"
      by (simp add: PN add_divide_distrib)
    have s_lo: "P \<le> round_double (q + 1 / 2)"
      using gt by (intro round_double_ge dP) simp
    have s_hi: "round_double (q + 1 / 2) \<le> P + 1 / 2"
      using b(2) by (intro round_double_le dP2) simp
    have "\<lfloor>round_double (q + 1 / 2)\<rfloor> = N"
      using s_lo s_hi unfolding PN by linarith
    moreover have "\<lfloor>q + 1 / 2\<rfloor> = N"
      using gt b(2) unfolding PN by linarith
    moreover have "0 \<le> round_double (q + 1 / 2)"
      using s_lo N_lo unfolding PN by linarith
    ultimately show ?thesis
      by (simp add: py_int_def)
  qed
qed

lemma center_at_top: "py_int (round_double (2 ^ 52 + 1 / 2)) = 2 ^ 52"
  by code_simp

lemma center_rounds_half_up:
  assumes d: "is_double q" and lo: "- (1 / 2) \<le> q" and hi: "q \<le> 2 ^ 52"
    and ne: "q \<noteq> 1 / 2 - 1 / 2 ^ 54"
  shows "py_int (round_double (q + 1 / 2)) = \<lfloor>q + 1 / 2\<rfloor>"
proof -
  consider "q < 1 / 2" | "1 / 2 \<le> q" "q < 2 ^ 52" | "q = 2 ^ 52"
    using hi by linarith
  then show ?thesis
  proof cases
    case 1
    have "q \<le> 1 / 2 - 1 / 2 ^ 53"
      using d 1 ne by (rule double_below_half)
    with center_around_zero [OF lo 1] have "py_int (round_double (q + 1 / 2)) = 0"
      by auto
    moreover have "\<lfloor>q + 1 / 2\<rfloor> = 0"
      using lo 1 by linarith
    ultimately show ?thesis by simp
  next
    case 2
    with d show ?thesis by (intro center_from_half)
  next
    case 3
    have "\<lfloor>(2::real) ^ 52 + 1 / 2\<rfloor> = 2 ^ 52"
      by (rule floor_unique) simp_all
    then show ?thesis
      unfolding 3 by (simp only: center_at_top)
  qed
qed

subsection \<open>The offset of a mean\<close>

lemma center_is_double:
  "round_double (of_int (py_int (round_double x))) = of_int (py_int (round_double x))"
  by (intro round_double_fix is_double_py_int is_double_round_double)

lemma offset_tolerance:
  "\<bar>of_int c + round_double (q - of_int c) - q\<bar> \<le> \<bar>q - of_int c\<bar> / 2 ^ 53"
proof -
  have "of_int c + round_double (q - of_int c) - q
          = round_double (q - of_int c) - (q - of_int c)"
    by simp
  then show ?thesis
    by (simp only: round_double_error)
qed

lemma offset_below_one:
  assumes d: "is_double q" and lo: "- 1 < q" and hi: "q \<le> 2 ^ 52"
  shows "\<bar>round_double (q - of_int (py_int (round_double (q + 1 / 2))))\<bar> < 1"
proof -
  let ?c = "py_int (round_double (q + 1 / 2))"
  have half: "is_double (1 / 2)" "is_double (- (1 / 2))"
    using is_double_halves [of 1] is_double_halves [of "- 1"] by simp_all
  consider "q < - (1 / 2)" | "- (1 / 2) \<le> q" "q < 1 / 2" | "1 / 2 \<le> q"
    by linarith
  then show ?thesis
  proof cases
    case 1
    then have "?c = 0"
      using lo by (intro center_below_half) simp_all
    then show ?thesis
      using round_double_fix [OF d] lo 1 by simp
  next
    case 2
    from center_around_zero [OF 2] consider "?c = 0" | "?c = 1" "1 / 2 - 1 / 2 ^ 53 < q"
      by auto
    then show ?thesis
    proof cases
      case 1
      then show ?thesis
        using round_double_fix [OF d] 2 by simp
    next
      case 2
      have "is_double (of_int (- 3) / 4)" by (rule is_double_quarters) simp
      then have "is_double (- (3 / 4))" by simp
      then have "- (3 / 4) \<le> round_double (q - 1)"
        using 2(2) by (intro round_double_ge) simp_all
      moreover have "round_double (q - 1) \<le> - (1 / 2)"
        using \<open>q < 1 / 2\<close> by (intro round_double_le half) simp
      ultimately show ?thesis
        using 2(1) by simp
    qed
  next
    case 3
    have ne: "q \<noteq> 1 / 2 - 1 / 2 ^ 54"
      using 3 by simp
    have c: "?c = \<lfloor>q + 1 / 2\<rfloor>"
      using d _ hi ne by (rule center_rounds_half_up) (use 3 in simp)
    have "- (1 / 2) \<le> q - of_int ?c" "q - of_int ?c \<le> 1 / 2"
      unfolding c by linarith+
    then have "- (1 / 2) \<le> round_double (q - of_int ?c)"
      "round_double (q - of_int ?c) \<le> 1 / 2"
      by (intro round_double_ge round_double_le half; simp)+
    then show ?thesis by simp
  qed
qed

text \<open>The mean in doubles and the mean.\<close>

lemma quotient_error:
  fixes a b v c eps q :: real
  assumes c: "0 < c" and e0: "0 \<le> eps" and e1: "eps \<le> 1 / 5"
    and ea: "\<bar>a - v\<bar> \<le> \<bar>v\<bar> * eps" and eb: "\<bar>b - c\<bar> \<le> c * eps"
    and eq: "\<bar>q - a / b\<bar> \<le> \<bar>a / b\<bar> * eps"
  shows "\<bar>q - v / c\<bar> \<le> \<bar>v / c\<bar> * (4 * eps)"
proof -
  define t where "t = 1 - eps"
  define W where "W = \<bar>v\<bar> / c"
  have t: "0 < t" "t \<le> 1" using e0 e1 by (simp_all add: t_def)
  have W0: "0 \<le> W" using c by (simp add: W_def)
  have "c - c * eps \<le> b" using eb by linarith
  then have bl: "c * t \<le> b" by (simp add: t_def algebra_simps)
  have ct: "0 < c * t" using c t by simp
  have b0: "0 < b" using ct bl by linarith
  have inv: "1 / b \<le> 1 / (c * t)"
    by (rule frac_le [OF _ _ ct bl]) simp_all
  have av: "\<bar>a\<bar> \<le> \<bar>v\<bar> * (1 + eps)"
  proof -
    have "\<bar>a\<bar> \<le> \<bar>v\<bar> + \<bar>a - v\<bar>" by linarith
    also have "\<dots> \<le> \<bar>v\<bar> + \<bar>v\<bar> * eps" using ea by simp
    finally show ?thesis by (simp add: algebra_simps)
  qed
  have Wt: "\<bar>v\<bar> * (1 / (c * t)) = W / t"
    by (simp add: W_def)
  have d2: "\<bar>a / b\<bar> \<le> (1 + eps) * (W / t)"
  proof -
    have "\<bar>a / b\<bar> = \<bar>a\<bar> * (1 / b)"
      using b0 by (simp add: abs_divide)
    also have "\<dots> \<le> (\<bar>v\<bar> * (1 + eps)) * (1 / (c * t))"
      using av inv b0 ct by (intro mult_mono) simp_all
    also have "\<dots> = (1 + eps) * (\<bar>v\<bar> * (1 / (c * t)))"
      by (simp only: mult_ac)
    finally show ?thesis by (simp only: Wt)
  qed
  have num: "\<bar>a * c - v * b\<bar> \<le> 2 * eps * \<bar>v\<bar> * c"
  proof -
    have x: "\<bar>(a - v) * c\<bar> \<le> (\<bar>v\<bar> * eps) * c"
      using ea c by (simp add: abs_mult)
    have y: "\<bar>v * (b - c)\<bar> \<le> \<bar>v\<bar> * (c * eps)"
      unfolding abs_mult using eb by (rule mult_left_mono) simp
    have "a * c - v * b = (a - v) * c - v * (b - c)"
      by (simp add: algebra_simps)
    then have "\<bar>a * c - v * b\<bar> \<le> \<bar>(a - v) * c\<bar> + \<bar>v * (b - c)\<bar>"
      by (simp only: abs_triangle_ineq4)
    also have "\<dots> \<le> (\<bar>v\<bar> * eps) * c + \<bar>v\<bar> * (c * eps)"
      using x y by (rule add_mono)
    finally show ?thesis by (simp add: algebra_simps)
  qed
  have d1: "\<bar>a / b - v / c\<bar> \<le> 2 * eps * (W / t)"
  proof -
    have "a / b - v / c = (a * c - v * b) / (b * c)"
      using b0 c by (simp add: diff_frac_eq)
    then have "\<bar>a / b - v / c\<bar> = \<bar>a * c - v * b\<bar> / (b * c)"
      using b0 c by (simp add: abs_divide abs_mult)
    also have "\<dots> \<le> (2 * eps * \<bar>v\<bar> * c) / (b * c)"
      using num b0 c by (intro divide_right_mono) simp_all
    also have "\<dots> = (2 * eps * \<bar>v\<bar>) * (1 / b)"
      using c by simp
    also have "\<dots> \<le> (2 * eps * \<bar>v\<bar>) * (1 / (c * t))"
      using inv e0 by (intro mult_left_mono) simp_all
    also have "\<dots> = 2 * eps * (\<bar>v\<bar> * (1 / (c * t)))"
      by (simp only: mult_ac)
    finally show ?thesis by (simp only: Wt)
  qed
  have Wt0: "0 \<le> W / t" using W0 t by simp
  have "\<bar>q - v / c\<bar> \<le> \<bar>q - a / b\<bar> + \<bar>a / b - v / c\<bar>"
    by linarith
  also have "\<dots> \<le> ((1 + eps) * (W / t)) * eps + 2 * eps * (W / t)"
  proof (rule add_mono)
    have "\<bar>a / b\<bar> * eps \<le> ((1 + eps) * (W / t)) * eps"
      using d2 e0 by (rule mult_right_mono)
    with eq show "\<bar>q - a / b\<bar> \<le> ((1 + eps) * (W / t)) * eps" by linarith
    show "\<bar>a / b - v / c\<bar> \<le> 2 * eps * (W / t)" by (rule d1)
  qed
  also have "\<dots> = (W / t) * (eps * (3 + eps))"
  proof -
    have "((1 + eps) * Z) * eps + 2 * eps * Z = Z * (eps * (3 + eps))" for Z :: real
      by (simp add: algebra_simps)
    then show ?thesis .
  qed
  also have "\<dots> \<le> (W / t) * (4 * eps * t)"
  proof (rule mult_left_mono [OF _ Wt0])
    have "eps * (3 + eps) \<le> eps * (4 * t)"
      using e0 e1 by (intro mult_left_mono) (simp_all add: t_def)
    then show "eps * (3 + eps) \<le> 4 * eps * t" by (simp only: mult_ac)
  qed
  also have "\<dots> = W * (4 * eps)"
    using t by simp
  finally show ?thesis
    using c by (simp add: W_def abs_divide)
qed

lemma computed_mean_error:
  fixes v c :: real
  assumes c: "0 < c"
  shows "\<bar>round_double (round_double v / round_double c) - v / c\<bar> \<le> \<bar>v / c\<bar> / 2 ^ 51"
proof -
  have e: "\<bar>round_double x - x\<bar> \<le> \<bar>x\<bar> * (1 / 2 ^ 53)" for x
    using round_double_error [of x] by simp
  have "\<bar>round_double c - c\<bar> \<le> c * (1 / 2 ^ 53)"
    using e [of c] c by simp
  from quotient_error [OF c _ _ e this e, of v]
  have "\<bar>round_double (round_double v / round_double c) - v / c\<bar> \<le> \<bar>v / c\<bar> * (4 * (1 / 2 ^ 53))"
    by simp
  then show ?thesis by simp
qed

lemma center_negative:
  assumes "q < - (1 / 2)"
  shows "py_int (round_double (q + 1 / 2)) = \<lceil>round_double (q + 1 / 2)\<rceil>"
proof -
  have "is_double (of_int 0)" by (rule is_double_of_int) simp
  then have "is_double 0" by simp
  then have "round_double (q + 1 / 2) \<le> 0"
    using assms by (intro round_double_le) simp_all
  then show ?thesis
    by (cases "round_double (q + 1 / 2) = 0") (simp_all add: py_int_def)
qed

lemma center_distance:
  assumes d: "is_double q" and lo: "- 1 < q" and hi: "q \<le> 2 ^ 52"
  shows "\<bar>q - of_int (py_int (round_double (q + 1 / 2)))\<bar> < 1"
proof -
  let ?c = "py_int (round_double (q + 1 / 2))"
  consider "q < - (1 / 2)" | "- (1 / 2) \<le> q" "q < 1 / 2" | "1 / 2 \<le> q"
    by linarith
  then show ?thesis
  proof cases
    case 1
    then have "?c = 0"
      using lo by (intro center_below_half) simp_all
    then show ?thesis using lo 1 by simp
  next
    case 2
    from center_around_zero [OF 2] consider "?c = 0" | "?c = 1" "1 / 2 - 1 / 2 ^ 53 < q"
      by auto
    then show ?thesis
    proof cases
      case 1
      then show ?thesis using 2 by simp
    next
      case 2
      then show ?thesis using \<open>q < 1 / 2\<close> by simp
    qed
  next
    case 3
    have ne: "q \<noteq> 1 / 2 - 1 / 2 ^ 54"
      using 3 by simp
    have c: "?c = \<lfloor>q + 1 / 2\<rfloor>"
      using d _ hi ne by (rule center_rounds_half_up) (use 3 in simp)
    show ?thesis
      unfolding c by linarith
  qed
qed

subsection \<open>What calibrate and the constructor's first part return\<close>

lemma py_float_center:
  "py_float (py_int (round_double x)) = of_int (py_int (round_double x))"
  unfolding py_float_def by (rule center_is_double)

lemma is_double_computed_mean: "is_double (computed_mean val cnt)"
  unfolding computed_mean_def by (rule is_double_round_double)

lemma calibrate_ok:
  assumes "analog (snd s) = Some a" and "cnt \<noteq> 0"
  shows "calibrate (val, cnt) s =
     (let q = computed_mean val cnt; c = py_int (round_double (q + 1 / 2))
      in Inr (if simulation (fst s) then fst s
              else Timer_delay kCalibrationSampleTime (fst s),
              (snd s)\<lparr>center := Some c, offset := Some (round_double (q - of_int c)),
                       analog := Some (a\<lparr>accumulatorArmed := True, accumulatorCenter := c,
                          accumulatorValue := 0, accumulatorCount := 0\<rparr>)\<rparr>))"
proof -
  have n: "py_float cnt \<noteq> 0"
    using assms(2) by (simp add: py_float_def round_double_eq_0_iff)
  show ?thesis
    using assms(1) n
    by (simp add: calibrate_def Let_def float_truediv_def float_add_def float_sub_def
          py_float_center chan_defs hal_defs flip: computed_mean_def)
qed

lemma calibrate_zero_count:
  assumes "analog (snd s) = Some a"
  shows "calibrate (val, 0) s =
     Inl (ZeroDivisionError,
          (if simulation (fst s) then fst s else Timer_delay kCalibrationSampleTime (fst s),
           (snd s)\<lparr>analog := Some (a\<lparr>accumulatorArmed := True,
                      accumulatorValue := val, accumulatorCount := 0\<rparr>)\<rparr>))"
  using assms
  by (simp add: calibrate_def Let_def float_truediv_def py_float_def chan_defs hal_defs)

lemma setup_result:
  assumes "AnalogGyro_setup w ob ch = Inr s"
  shows "analog (snd s) \<noteq> None \<and> center (snd s) = None \<and> offset (snd s) = None"
  using assms
  by (auto simp: AnalogGyro_setup_def setDeadband_def setPIDSourceType_def Let_def
        split: channel_arg.splits sum.splits prod.splits)

lemma setup_bench: "AnalogGyro_setup fresh_hal 1 (Index 0) = Inr (bench_hal, bench_gyro)"
  by code_simp

lemma calibrate_bench:
  "calibrate (500000000, 1000) (bench_hal, bench_gyro) = Inr (bench_hal, calibrated_gyro)"
  by code_simp

lemma free_clears_owned:
  "channelAllocated (snd s) \<Longrightarrow> analog (snd (free s)) = None"
  by (simp add: free_def Let_def split: option.splits)

lemma getAngle_live:
  assumes "analog (snd s) = Some a" and "offset (snd s) = Some off"
  shows "getAngle s =
     py_truediv
       ((real_of_int (accumulatorValue a) - real_of_int (accumulatorCount a) * off)
          * (1 / 10 ^ 9) * lsbWeight a * 2 ^ averageBits a)
       (globalSampleRate (fst s) * voltsPerDegreePerSecond (snd s))"
  using assms by (simp add: getAngle_def shl1_def chan_defs hal_defs)

lemma getRate_live:
  assumes "analog (snd s) = Some a" and "center (snd s) = Some c" and "offset (snd s) = Some off"
  shows "getRate s =
     py_truediv
       ((real_of_int (averageValue a) - (real_of_int c + off)) * (1 / 10 ^ 9) * lsbWeight a)
       (2 ^ oversampleBits a * voltsPerDegreePerSecond (snd s))"
  using assms by (simp add: getRate_def shl1_def chan_defs)

subsection \<open>Calibration: center and offset\<close>

text \<open>
  Claim C1, as the code has it.  Let \<open>q\<close> be the mean as the code computes it, the
  double \<open>float(value) / float(count)\<close>.  For every snapshot with \<open>count > 0\<close>,
  \<open>calibrate\<close> returns and stores a center and an offset; \<open>center + offset\<close> is \<open>q\<close>
  up to the rounding of one subtraction, and \<open>q\<close> is \<open>value / count\<close> up to the
  rounding of two conversions and a division.  Whenever \<open>- 1 < q \<le> 2^52\<close> the offset
  has \<open>|offset| < 1\<close>, and \<open>center + offset\<close> is within \<open>2^-53\<close> of \<open>q\<close>.  Outside
  that range the bound on the offset is not promised.
\<close>

theorem calibrate_center_offset:
  assumes "analog (snd s) = Some a" and "0 < cnt"
  shows "\<exists>c off. result_error (calibrate (val, cnt) s) = None
           \<and> result_center (calibrate (val, cnt) s) = Some c
           \<and> result_offset (calibrate (val, cnt) s) = Some off
           \<and> \<bar>real_of_int c + off - computed_mean val cnt\<bar>
                 \<le> \<bar>computed_mean val cnt - real_of_int c\<bar> / 2 ^ 53
           \<and> \<bar>computed_mean val cnt - real_of_int val / real_of_int cnt\<bar>
                 \<le> \<bar>real_of_int val / real_of_int cnt\<bar> / 2 ^ 51
           \<and> (- 1 < computed_mean val cnt \<and> computed_mean val cnt \<le> 2 ^ 52 \<longrightarrow>
                 \<bar>off\<bar> < 1 \<and> \<bar>real_of_int c + off - computed_mean val cnt\<bar> \<le> 1 / 2 ^ 53)"
proof -
  let ?q = "computed_mean val cnt"
  let ?c = "py_int (round_double (?q + 1 / 2))"
  let ?off = "round_double (?q - real_of_int ?c)"
  have r: "result_error (calibrate (val, cnt) s) = None"
          "result_center (calibrate (val, cnt) s) = Some ?c"
          "result_offset (calibrate (val, cnt) s) = Some ?off"
    using assms by (simp_all add: calibrate_ok Let_def res_defs)
  have d: "is_double ?q"
    by (rule is_double_computed_mean)
  have tol: "\<bar>real_of_int ?c + ?off - ?q\<bar> \<le> \<bar>?q - real_of_int ?c\<bar> / 2 ^ 53"
    by (rule offset_tolerance)
  have "0 < real_of_int cnt"
    using assms(2) by simp
  then have mean: "\<bar>?q - real_of_int val / real_of_int cnt\<bar>
                     \<le> \<bar>real_of_int val / real_of_int cnt\<bar> / 2 ^ 51"
    unfolding computed_mean_def py_float_def by (rule computed_mean_error)
  have b: "\<bar>?off\<bar> < 1 \<and> \<bar>real_of_int ?c + ?off - ?q\<bar> \<le> 1 / 2 ^ 53"
    if "- 1 < ?q" "?q \<le> 2 ^ 52"
  proof
    show "\<bar>?off\<bar> < 1"
      using d that by (rule offset_below_one)
    have "\<bar>?q - real_of_int ?c\<bar> < 1"
      using d that by (rule center_distance)
    then have "\<bar>?q - real_of_int ?c\<bar> / 2 ^ 53 \<le> 1 / 2 ^ 53"
      by (simp add: divide_right_mono)
    with tol show "\<bar>real_of_int ?c + ?off - ?q\<bar> \<le> 1 / 2 ^ 53"
      by linarith
  qed
  show ?thesis
    using r tol mean b by blast
qed

theorem calibrate_center_offset_witness:
  "analog (snd (bench_hal, bench_gyro)) = Some bench_input \<and> (0::int) < 2
   \<and> computed_mean 3 2 = 3 / 2
   \<and> (\<exists>c off. result_error (calibrate (3, 2) (bench_hal, bench_gyro)) = None
           \<and> result_center (calibrate (3, 2) (bench_hal, bench_gyro)) = Some c
           \<and> result_offset (calibrate (3, 2) (bench_hal, bench_gyro)) = Some off
           \<and> \<bar>off\<bar> < 1 \<and> \<bar>real_of_int c + off - 3 / 2\<bar> \<le> 1 / 2 ^ 53)"
proof -
  have h: "analog (snd (bench_hal, bench_gyro)) = Some bench_input"
    by (simp add: bench_gyro_def)
  have p: "(0::int) < 2" by simp
  have m: "computed_mean 3 2 = 3 / 2"
    by code_simp
  from calibrate_center_offset [OF h p, of 3] obtain c off where
    "result_error (calibrate (3, 2) (bench_hal, bench_gyro)) = None"
    "result_center (calibrate (3, 2) (bench_hal, bench_gyro)) = Some c"
    "result_offset (calibrate (3, 2) (bench_hal, bench_gyro)) = Some off"
    "- 1 < computed_mean 3 2 \<and> computed_mean 3 2 \<le> 2 ^ 52 \<longrightarrow>
       \<bar>off\<bar> < 1 \<and> \<bar>real_of_int c + off - computed_mean 3 2\<bar> \<le> 1 / 2 ^ 53"
    by blast
  then show ?thesis
    using h m by auto
qed

text \<open>
  On the snapshot \<open>(-1, 1)\<close> the mean is \<open>-1\<close>; \<open>int(-1.0 + .5)\<close> is \<open>0\<close>, so the
  offset is \<open>-1\<close>, whose magnitude is not below 1.  On \<open>(2^52 + 1, 1)\<close> the sum
  \<open>q + .5\<close> is a tie that rounds to \<open>2^52 + 2\<close>, and the offset is \<open>-1\<close> again.
\<close>

theorem calibrate_offset_bound_counterexample:
  "result_error (calibrate (- 1, 1) (bench_hal, bench_gyro)) = None
   \<and> result_center (calibrate (- 1, 1) (bench_hal, bench_gyro)) = Some 0
   \<and> result_offset (calibrate (- 1, 1) (bench_hal, bench_gyro)) = Some (- 1)
   \<and> result_center (calibrate (2 ^ 52 + 1, 1) (bench_hal, bench_gyro)) = Some (2 ^ 52 + 2)
   \<and> result_offset (calibrate (2 ^ 52 + 1, 1) (bench_hal, bench_gyro)) = Some (- 1)
   \<and> \<not> \<bar>- 1 :: real\<bar> < 1"
  by code_simp

text \<open>
  Claim C4, as the code has it.  Let \<open>q\<close> be the double \<open>float(value) / float(count)\<close>.
  For every snapshot with \<open>count > 0\<close> the center is the double \<open>q + 0.5\<close> truncated
  toward zero.  For \<open>- 1/2 \<le> q \<le> 2^52\<close>, other than the largest double below \<open>1/2\<close>,
  that is \<open>q\<close> rounded to the nearest integer with ties toward positive infinity.  For
  \<open>q < - 1/2\<close> it is the ceiling of the double \<open>q + 0.5\<close>.
\<close>

theorem calibrate_center_rounding:
  assumes "analog (snd s) = Some a" and "0 < cnt"
  shows "result_center (calibrate (val, cnt) s)
           = Some (py_int (float_add (computed_mean val cnt) (1 / 2)))
         \<and> (- (1 / 2) \<le> computed_mean val cnt \<and> computed_mean val cnt \<le> 2 ^ 52
              \<and> computed_mean val cnt \<noteq> 1 / 2 - 1 / 2 ^ 54 \<longrightarrow>
             result_center (calibrate (val, cnt) s)
               = Some (round_half_up (computed_mean val cnt)))
         \<and> (computed_mean val cnt < - (1 / 2) \<longrightarrow>
             result_center (calibrate (val, cnt) s)
               = Some \<lceil>float_add (computed_mean val cnt) (1 / 2)\<rceil>)"
proof -
  let ?q = "computed_mean val cnt"
  have r: "result_center (calibrate (val, cnt) s) = Some (py_int (round_double (?q + 1 / 2)))"
    using assms by (simp add: calibrate_ok Let_def res_defs)
  have d: "is_double ?q"
    by (rule is_double_computed_mean)
  have up: "py_int (round_double (?q + 1 / 2)) = round_half_up ?q"
    if "- (1 / 2) \<le> ?q" "?q \<le> 2 ^ 52" "?q \<noteq> 1 / 2 - 1 / 2 ^ 54"
    unfolding round_half_up_def using d that by (rule center_rounds_half_up)
  have down: "py_int (round_double (?q + 1 / 2)) = \<lceil>round_double (?q + 1 / 2)\<rceil>"
    if "?q < - (1 / 2)"
    using that by (rule center_negative)
  show ?thesis
    using r up down by (simp add: float_add_def)
qed

theorem calibrate_center_rounding_witness:
  "analog (snd (bench_hal, bench_gyro)) = Some bench_input \<and> (0::int) < 2 \<and> (0::int) < 4
   \<and> computed_mean 3 2 = 3 / 2
   \<and> result_center (calibrate (3, 2) (bench_hal, bench_gyro)) = Some 2
   \<and> round_half_up (3 / 2) = 2
   \<and> computed_mean (- 9) 4 = - (9 / 4)
   \<and> result_center (calibrate (- 9, 4) (bench_hal, bench_gyro)) = Some (- 1)
   \<and> \<lceil>float_add (- (9 / 4)) (1 / 2)\<rceil> = - 1
   \<and> \<lfloor>float_add (- (9 / 4)) (1 / 2)\<rfloor> = - 2"
proof -
  have h: "analog (snd (bench_hal, bench_gyro)) = Some bench_input"
    by (simp add: bench_gyro_def)
  have p: "(0::int) < 2" "(0::int) < 4" by simp_all
  have m: "computed_mean 3 2 = 3 / 2" "computed_mean (- 9) 4 = - (9 / 4)"
    by code_simp+
  have u: "round_half_up (3 / 2) = 2"
    by code_simp
  have f: "float_add (- (9 / 4)) (1 / 2) = - (7 / 4)"
    by code_simp
  have c: "\<lceil>- (7 / 4) :: real\<rceil> = - 1" "\<lfloor>- (7 / 4) :: real\<rfloor> = - 2"
    by simp_all
  have a: "result_center (calibrate (3, 2) (bench_hal, bench_gyro))
             = Some (round_half_up (3 / 2))"
    using calibrate_center_rounding [OF h p(1), of 3, unfolded m(1), THEN conjunct2, THEN conjunct1]
    by simp
  have b: "result_center (calibrate (- 9, 4) (bench_hal, bench_gyro))
             = Some \<lceil>float_add (- (9 / 4)) (1 / 2)\<rceil>"
    using calibrate_center_rounding
      [OF h p(2), of "- 9", unfolded m(2), THEN conjunct2, THEN conjunct2]
    by simp
  show ?thesis
    using h m a b by (simp add: u f c)
qed

text \<open>
  On the snapshot \<open>(-7, 4)\<close> the mean is \<open>-1.75\<close>: the code stores \<open>-1\<close>, rounding
  to the nearest integer gives \<open>-2\<close>.  On \<open>(2^52 + 1, 1)\<close> it stores \<open>2^52 + 2\<close>,
  on \<open>(2^53 + 1, 1)\<close> it stores \<open>2^53\<close>, and on \<open>(2^53 - 1, 2^54)\<close>, a mean just
  below \<open>1/2\<close>, it stores \<open>1\<close>.
\<close>

theorem calibrate_center_rounding_counterexample:
  "result_center (calibrate (- 7, 4) (bench_hal, bench_gyro)) = Some (- 1)
   \<and> round_half_up (real_of_int (- 7) / real_of_int 4) = - 2
   \<and> result_center (calibrate (2 ^ 52 + 1, 1) (bench_hal, bench_gyro)) = Some (2 ^ 52 + 2)
   \<and> round_half_up (real_of_int (2 ^ 52 + 1) / real_of_int 1) = 2 ^ 52 + 1
   \<and> result_center (calibrate (2 ^ 53 + 1, 1) (bench_hal, bench_gyro)) = Some (2 ^ 53)
   \<and> round_half_up (real_of_int (2 ^ 53 + 1) / real_of_int 1) = 2 ^ 53 + 1
   \<and> result_center (calibrate (2 ^ 53 - 1, 2 ^ 54) (bench_hal, bench_gyro)) = Some 1
   \<and> round_half_up (real_of_int (2 ^ 53 - 1) / real_of_int (2 ^ 54)) = 0"
  by code_simp

subsection \<open>Construction\<close>

text \<open>
  Claim C2, as the code has it.  Once the first part of the constructor has returned,
  the constructor is \<open>calibrate\<close> exactly when at least one preset is absent.  Only
  when both presets are given does it adopt them: it stores the center and the offset,
  pushes the center to the channel and resets the accumulator, and leaves the rest of
  the channel and the process as they were (no arming, no wait).
\<close>

theorem init_calibrates_unless_both_presets:
  assumes "AnalogGyro_setup w ob ch = Inr s"
  shows "(c_arg = None \<or> off_arg = None \<longrightarrow>
            AnalogGyro_init w ob ch c_arg off_arg snap = calibrate snap s)
         \<and> (c_arg = Some c \<and> off_arg = Some off \<longrightarrow>
            AnalogGyro_init w ob ch c_arg off_arg snap =
              Inr (fst s, (snd s)\<lparr>center := Some c, offset := Some off,
                     analog := map_option
                       (\<lambda>a. a\<lparr>accumulatorCenter := c, accumulatorValue := 0,
                              accumulatorCount := 0\<rparr>) (analog (snd s))\<rparr>))"
proof -
  obtain a where a: "analog (snd s) = Some a"
    using setup_result [OF assms] by auto
  show ?thesis
    using assms a
    by (auto simp: AnalogGyro_init_def adopt_def chan_defs)
qed

theorem init_calibrates_unless_both_presets_witness:
  "AnalogGyro_setup fresh_hal 1 (Index 0) = Inr (bench_hal, bench_gyro)
   \<and> AnalogGyro_init fresh_hal 1 (Index 0) None (Some (1 / 4)) (3, 2)
       = calibrate (3, 2) (bench_hal, bench_gyro)
   \<and> AnalogGyro_init fresh_hal 1 (Index 0) (Some 1000) (Some (1 / 4)) (3, 2)
       = Inr (bench_hal, bench_gyro\<lparr>center := Some 1000, offset := Some (1 / 4),
                analog := Some (bench_input\<lparr>accumulatorCenter := 1000\<rparr>)\<rparr>)"
proof -
  have h: "AnalogGyro_setup fresh_hal 1 (Index 0) = Inr (bench_hal, bench_gyro)"
    by (rule setup_bench)
  show ?thesis
    using h
      init_calibrates_unless_both_presets
        [OF h, where c_arg = None and off_arg = "Some (1 / 4)" and snap = "(3, 2)"]
      init_calibrates_unless_both_presets
        [OF h, where c_arg = "Some 1000" and off_arg = "Some (1 / 4)" and c = 1000
           and off = "1 / 4" and snap = "(3, 2)"]
    by (simp add: bench_gyro_def bench_input_def)
qed

text \<open>
  With the center preset \<open>1000\<close> and no offset, on real hardware, the constructor
  calibrates: it waits for the calibration window and stores the center \<open>2\<close> of the
  snapshot \<open>(3, 2)\<close>, not \<open>1000\<close>.
\<close>

theorem init_one_preset_counterexample:
  "result_center (AnalogGyro_init robot_hal 1 (Index 0) (Some 1000) None (3, 2)) = Some 2
   \<and> result_offset (AnalogGyro_init robot_hal 1 (Index 0) (Some 1000) None (3, 2))
        = Some (- (1 / 2))
   \<and> delays (fst (result_state (AnalogGyro_init robot_hal 1 (Index 0) (Some 1000) None (3, 2))))
        = [1, kCalibrationSampleTime]"
  by code_simp

subsection \<open>Release\<close>

text \<open>
  Claim C3, as the code has it.  For a driver that allocated its channel, \<open>getAngle\<close>
  and \<open>getRate\<close> return \<open>0.0\<close> after \<open>free\<close>, whatever the state was.  For every
  driver a second \<open>free\<close> changes nothing.
\<close>

theorem free_then_read:
  "(channelAllocated (snd s) \<longrightarrow> getAngle (free s) = Inr 0 \<and> getRate (free s) = Inr 0)
   \<and> free (free s) = free s"
proof -
  have "getAngle (free s) = Inr 0" "getRate (free s) = Inr 0" if "channelAllocated (snd s)"
    using free_clears_owned [OF that] by (simp_all add: getAngle_def getRate_def)
  moreover have "free (free s) = free s"
    by (simp add: free_def Let_def removeComponent_def AnalogInput_free_def split: option.splits)
  ultimately show ?thesis by simp
qed

theorem free_then_read_witness:
  "channelAllocated (snd (bench_hal, turned_gyro))
   \<and> getAngle (free (bench_hal, turned_gyro)) = Inr 0
   \<and> getRate (free (bench_hal, turned_gyro)) = Inr 0
   \<and> free (free (bench_hal, turned_gyro)) = free (bench_hal, turned_gyro)"
  using free_then_read [of "(bench_hal, turned_gyro)"]
  by (simp add: turned_gyro_def calibrated_gyro_def bench_gyro_def)

text \<open>
  A driver on a channel of the caller keeps its channel through \<open>free\<close>: with
  \<open>(505000000, 1010)\<close> accumulated and an average of \<open>500100\<close> it reads the same
  non-zero angle and rate as before.
\<close>

theorem free_borrowed_counterexample:
  "getAngle (free (bench_hal, borrowing_gyro)) \<noteq> Inr 0
   \<and> getRate (free (bench_hal, borrowing_gyro)) \<noteq> Inr 0
   \<and> getAngle (bench_hal, turned_gyro) \<noteq> Inr 0
   \<and> getRate (bench_hal, turned_gyro) \<noteq> Inr 0"
  by code_simp

subsection \<open>Measurement\<close>

text \<open>
  Claim C5.  For a driver that holds its channel and has an offset, with a sample rate
  and a sensitivity that are not zero, \<open>getAngle\<close> returns
  \<open>(value - count * offset) * 1e-9 * LSBWeight * 2^averageBits
  / (globalSampleRate * sensitivity)\<close> for the snapshot \<open>(value, count)\<close> that the
  channel holds.  The witness is the specification's example: LSB weight 7.6295e-6,
  no averaging bits, sample rate 51200, sensitivity 0.007, offset 0 and the snapshot
  \<open>(505000000, 1010)\<close>.
\<close>

theorem getAngle_formula:
  assumes "analog (snd s) = Some a" and "offset (snd s) = Some off"
    and "globalSampleRate (fst s) * voltsPerDegreePerSecond (snd s) \<noteq> 0"
  shows "getAngle s =
     Inr ((real_of_int (accumulatorValue a) - real_of_int (accumulatorCount a) * off)
            * (1 / 10 ^ 9) * lsbWeight a * 2 ^ averageBits a
          / (globalSampleRate (fst s) * voltsPerDegreePerSecond (snd s)))"
  using assms(3) by (simp add: getAngle_live [OF assms(1,2)] py_truediv_def)

theorem getAngle_formula_witness:
  "analog (snd (bench_hal, turned_gyro)) = Some turned_input
   \<and> offset (snd (bench_hal, turned_gyro)) = Some 0
   \<and> accumulatorValue turned_input = 505000000 \<and> accumulatorCount turned_input = 1010
   \<and> lsbWeight turned_input = 76295 / 10 ^ 10 \<and> averageBits turned_input = 0
   \<and> globalSampleRate (fst (bench_hal, turned_gyro)) = 51200
   \<and> voltsPerDegreePerSecond (snd (bench_hal, turned_gyro)) = 7 / 1000
   \<and> getAngle (bench_hal, turned_gyro) =
       Inr ((505000000 - 1010 * 0) * (1 / 10 ^ 9) * (76295 / 10 ^ 10) * 1
            / (51200 * (7 / 1000)))"
proof -
  have h: "analog (snd (bench_hal, turned_gyro)) = Some turned_input"
    by (simp add: turned_gyro_def)
  have o: "offset (snd (bench_hal, turned_gyro)) = Some 0"
    by (simp add: turned_gyro_def calibrated_gyro_def)
  have n: "globalSampleRate (fst (bench_hal, turned_gyro))
             * voltsPerDegreePerSecond (snd (bench_hal, turned_gyro)) \<noteq> 0"
    by (simp add: turned_gyro_def calibrated_gyro_def bench_gyro_def bench_hal_def)
  show ?thesis
    using h o getAngle_formula [OF h o n]
    by (simp add: turned_gyro_def calibrated_gyro_def bench_gyro_def bench_hal_def
          turned_input_def calibrated_input_def bench_input_def accumulate_def sample_def)
qed

text \<open>
  Claim C6.  For a driver that holds its channel and has a center and an offset, with
  a sensitivity that is not zero, \<open>getRate\<close> returns
  \<open>(averageValue - (center + offset)) * 1e-9 * LSBWeight
  / (2^oversampleBits * sensitivity)\<close>, where \<open>averageValue\<close> is the averaged raw
  value of the channel; whatever the accumulator holds, the rate is the same.
\<close>

theorem getRate_formula:
  assumes "analog (snd s) = Some a" and "center (snd s) = Some c" and "offset (snd s) = Some off"
    and "voltsPerDegreePerSecond (snd s) \<noteq> 0"
  shows "getRate s =
     Inr ((real_of_int (averageValue a) - (real_of_int c + off)) * (1 / 10 ^ 9) * lsbWeight a
          / (2 ^ oversampleBits a * voltsPerDegreePerSecond (snd s)))
   \<and> getRate (fst s, (snd s)\<lparr>analog := Some (accumulate snap a)\<rparr>) = getRate s"
proof -
  have "getRate (fst s, (snd s)\<lparr>analog := Some (accumulate snap a)\<rparr>) = getRate s"
    using assms(1-3) by (simp add: getRate_def chan_defs)
  then show ?thesis
    using assms(4) by (simp add: getRate_live [OF assms(1-3)] py_truediv_def)
qed

theorem getRate_formula_witness:
  "analog (snd (bench_hal, turned_gyro)) = Some turned_input
   \<and> center (snd (bench_hal, turned_gyro)) = Some 500000
   \<and> offset (snd (bench_hal, turned_gyro)) = Some 0
   \<and> voltsPerDegreePerSecond (snd (bench_hal, turned_gyro)) \<noteq> 0
   \<and> getRate (bench_hal, turned_gyro) =
       Inr ((500100 - (500000 + 0)) * (1 / 10 ^ 9) * (76295 / 10 ^ 10)
            / (2 ^ 10 * (7 / 1000)))
   \<and> getRate (bench_hal, turned_gyro\<lparr>analog := Some (accumulate (0, 0) turned_input)\<rparr>)
       = getRate (bench_hal, turned_gyro)"
proof -
  have h: "analog (snd (bench_hal, turned_gyro)) = Some turned_input"
    by (simp add: turned_gyro_def)
  have c: "center (snd (bench_hal, turned_gyro)) = Some 500000"
    by (simp add: turned_gyro_def calibrated_gyro_def)
  have o: "offset (snd (bench_hal, turned_gyro)) = Some 0"
    by (simp add: turned_gyro_def calibrated_gyro_def)
  have n: "voltsPerDegreePerSecond (snd (bench_hal, turned_gyro)) \<noteq> 0"
    by (simp add: turned_gyro_def calibrated_gyro_def bench_gyro_def)
  show ?thesis
    using h c o n getRate_formula [OF h c o n, of "(0, 0)"]
    by (simp add: turned_input_def calibrated_input_def bench_input_def accumulate_def
          sample_def turned_gyro_def calibrated_gyro_def bench_gyro_def)
qed

text \<open>
  Claim C10.  \<open>getAngle\<close> does not divide by the sample count.  For a driver that
  holds its channel and has an offset, with a sample rate and a sensitivity that are not
  zero, and for every snapshot \<open>(value, count)\<close>, it returns
  \<open>(value - count * offset)\<close> times the conversion factor; so it does when
  \<open>count = 0\<close>, and the result is \<open>0.0\<close> when \<open>value = 0\<close> and \<open>count = 0\<close>.
\<close>

theorem getAngle_any_count:
  assumes "analog (snd s) = Some a" and "offset (snd s) = Some off"
    and "globalSampleRate (fst s) * voltsPerDegreePerSecond (snd s) \<noteq> 0"
  shows "getAngle (fst s, (snd s)\<lparr>analog := Some (accumulate (val, cnt) a)\<rparr>)
           = Inr ((real_of_int val - real_of_int cnt * off) * conversion_factor (fst s) (snd s) a)
       \<and> getAngle (fst s, (snd s)\<lparr>analog := Some (accumulate (val, 0) a)\<rparr>)
           = Inr (real_of_int val * conversion_factor (fst s) (snd s) a)
       \<and> getAngle (fst s, (snd s)\<lparr>analog := Some (accumulate (0, 0) a)\<rparr>) = Inr 0"
  using assms
  by (simp add: getAngle_def conversion_factor_def py_truediv_def chan_defs hal_defs)

theorem getAngle_any_count_witness:
  "analog (snd (bench_hal, calibrated_gyro\<lparr>offset := Some (1 / 4)\<rparr>)) = Some calibrated_input
   \<and> offset (snd (bench_hal, calibrated_gyro\<lparr>offset := Some (1 / 4)\<rparr>)) = Some (1 / 4)
   \<and> globalSampleRate bench_hal * voltsPerDegreePerSecond calibrated_gyro \<noteq> 0
   \<and> conversion_factor bench_hal calibrated_gyro calibrated_input = 15259 / 716800000000000000000
   \<and> getAngle (bench_hal, calibrated_gyro\<lparr>offset := Some (1 / 4),
                  analog := Some (accumulate (7, 0) calibrated_input)\<rparr>)
        = Inr (7 * (15259 / 716800000000000000000))
   \<and> getAngle (bench_hal, calibrated_gyro\<lparr>offset := Some (1 / 4),
                  analog := Some (accumulate (0, 0) calibrated_input)\<rparr>) = Inr 0"
proof -
  have h: "analog (snd (bench_hal, calibrated_gyro\<lparr>offset := Some (1 / 4)\<rparr>))
             = Some calibrated_input"
    by (simp add: calibrated_gyro_def)
  have o: "offset (snd (bench_hal, calibrated_gyro\<lparr>offset := Some (1 / 4)\<rparr>)) = Some (1 / 4)"
    by simp
  have n: "globalSampleRate (fst (bench_hal, calibrated_gyro\<lparr>offset := Some (1 / 4)\<rparr>))
             * voltsPerDegreePerSecond (snd (bench_hal, calibrated_gyro\<lparr>offset := Some (1 / 4)\<rparr>))
           \<noteq> 0"
    by (simp add: calibrated_gyro_def bench_gyro_def bench_hal_def)
  have f: "conversion_factor bench_hal (calibrated_gyro\<lparr>offset := Some (1 / 4)\<rparr>) calibrated_input
             = 15259 / 716800000000000000000"
    "conversion_factor bench_hal calibrated_gyro calibrated_input
             = 15259 / 716800000000000000000"
    by code_simp+
  show ?thesis
    using h n f getAngle_any_count [OF h o n, of 7 0]
    by simp
qed

subsection \<open>Calibration without samples\<close>

text \<open>
  Claim C7.  With a snapshot whose count is zero, \<open>calibrate\<close> raises
  \<open>ZeroDivisionError\<close> and leaves the center and the offset as they were; a
  constructor that calibrates passes the error on, with no center and no offset
  assigned.
\<close>

theorem calibrate_zero_count_raises:
  assumes "analog (snd s) = Some a"
  shows "result_error (calibrate (val, 0) s) = Some ZeroDivisionError
   \<and> result_center (calibrate (val, 0) s) = center (snd s)
   \<and> result_offset (calibrate (val, 0) s) = offset (snd s)
   \<and> (AnalogGyro_setup w ob ch = Inr s \<longrightarrow>
        AnalogGyro_init w ob ch None None (val, 0) = calibrate (val, 0) s
        \<and> result_center (AnalogGyro_init w ob ch None None (val, 0)) = None
        \<and> result_offset (AnalogGyro_init w ob ch None None (val, 0)) = None)"
proof -
  have z: "result_error (calibrate (val, 0) s) = Some ZeroDivisionError"
    "result_center (calibrate (val, 0) s) = center (snd s)"
    "result_offset (calibrate (val, 0) s) = offset (snd s)"
    by (simp_all add: calibrate_zero_count [OF assms] res_defs)
  have i: "AnalogGyro_init w ob ch None None (val, 0) = calibrate (val, 0) s"
    if "AnalogGyro_setup w ob ch = Inr s"
    using that by (simp add: AnalogGyro_init_def)
  show ?thesis
    using z i setup_result [of w ob ch s] by simp
qed

theorem calibrate_zero_count_raises_witness:
  "analog (snd (bench_hal, bench_gyro)) = Some bench_input
   \<and> AnalogGyro_setup fresh_hal 1 (Index 0) = Inr (bench_hal, bench_gyro)
   \<and> result_error (calibrate (5, 0) (bench_hal, bench_gyro)) = Some ZeroDivisionError
   \<and> result_center (calibrate (5, 0) (bench_hal, bench_gyro)) = None
   \<and> result_offset (calibrate (5, 0) (bench_hal, bench_gyro)) = None
   \<and> result_error (AnalogGyro_init fresh_hal 1 (Index 0) None None (5, 0))
        = Some ZeroDivisionError"
proof -
  have h: "analog (snd (bench_hal, bench_gyro)) = Some bench_input"
    by (simp add: bench_gyro_def)
  have u: "AnalogGyro_setup fresh_hal 1 (Index 0) = Inr (bench_hal, bench_gyro)"
    by (rule setup_bench)
  show ?thesis
    using h u
      calibrate_zero_count_raises [OF h, where val = 5 and w = fresh_hal and ob = 1
        and ch = "Index 0"]
    by (simp add: bench_gyro_def)
qed

subsection \<open>Sensitivity\<close>

text \<open>
  Claim C8.  For every driver, every sensitivity \<open>v > 0\<close> and the same readings,
  \<open>getAngle\<close> and \<open>getRate\<close> after \<open>setSensitivity (2 * v)\<close> return half of what
  they return after \<open>setSensitivity v\<close>, hence half the magnitude; where a read
  raises under one sensitivity it raises the same error under the other.
\<close>

theorem setSensitivity_doubled_halves:
  assumes "0 < v"
  shows "getAngle (w, setSensitivity (2 * v) g)
           = map_sum id (\<lambda>x. x / 2) (getAngle (w, setSensitivity v g))
       \<and> getRate (w, setSensitivity (2 * v) g)
           = map_sum id (\<lambda>x. x / 2) (getRate (w, setSensitivity v g))"
  using assms
  by (simp add: getAngle_def getRate_def setSensitivity_def py_truediv_def shl1_def
        split: option.splits prod.splits)

theorem setSensitivity_doubled_halves_witness:
  "(0::real) < 7 / 1000
   \<and> getAngle (bench_hal, setSensitivity (7 / 1000) turned_gyro) = Inr (1541159 / 143360000000000)
   \<and> getAngle (bench_hal, setSensitivity (2 * (7 / 1000)) turned_gyro)
        = Inr (1541159 / 143360000000000 / 2)
   \<and> getRate (bench_hal, setSensitivity (7 / 1000) turned_gyro) = Inr (15259 / 143360000000000000)
   \<and> getRate (bench_hal, setSensitivity (2 * (7 / 1000)) turned_gyro)
        = Inr (15259 / 143360000000000000 / 2)"
proof -
  have p: "(0::real) < 7 / 1000" by simp
  have a: "getAngle (bench_hal, setSensitivity (7 / 1000) turned_gyro)
             = Inr (1541159 / 143360000000000)"
    by code_simp
  have r: "getRate (bench_hal, setSensitivity (7 / 1000) turned_gyro)
             = Inr (15259 / 143360000000000000)"
    by code_simp
  show ?thesis
    using p a r setSensitivity_doubled_halves [OF p, of bench_hal turned_gyro] by simp
qed

subsection \<open>Reset\<close>

text \<open>
  Claim C9.  \<open>reset\<close> leaves the center and the offset unchanged and resets the
  accumulator of the channel to zero; on a released driver it changes nothing.  For a
  driver with an offset, and a sample rate and a sensitivity that are not zero,
  \<open>getAngle\<close> right after \<open>reset\<close> returns \<open>0.0\<close>.
\<close>

theorem reset_frame:
  "center (reset g) = center g \<and> offset (reset g) = offset g
   \<and> map_option getAccumulatorOutput (analog (reset g)) = map_option (\<lambda>a. (0, 0)) (analog g)
   \<and> (analog g = None \<longrightarrow> reset g = g)
   \<and> (offset g \<noteq> None \<and> globalSampleRate w * voltsPerDegreePerSecond g \<noteq> 0 \<longrightarrow>
        getAngle (w, reset g) = Inr 0)"
  by (auto simp: reset_def getAngle_def py_truediv_def chan_defs hal_defs split: option.splits)

theorem reset_frame_witness:
  "center (reset turned_gyro) = Some 500000 \<and> offset (reset turned_gyro) = Some 0
   \<and> map_option getAccumulatorOutput (analog turned_gyro) = Some (505000000, 1010)
   \<and> map_option getAccumulatorOutput (analog (reset turned_gyro)) = Some (0, 0)
   \<and> analog (turned_gyro\<lparr>analog := None\<rparr>) = None
   \<and> reset (turned_gyro\<lparr>analog := None\<rparr>) = turned_gyro\<lparr>analog := None\<rparr>
   \<and> offset turned_gyro \<noteq> None
   \<and> globalSampleRate bench_hal * voltsPerDegreePerSecond turned_gyro \<noteq> 0
   \<and> getAngle (bench_hal, turned_gyro) \<noteq> Inr 0
   \<and> getAngle (bench_hal, reset turned_gyro) = Inr 0"
proof -
  have b: "getAngle (bench_hal, turned_gyro) \<noteq> Inr 0"
    by code_simp
  show ?thesis
    using b reset_frame [of turned_gyro bench_hal]
      reset_frame [of "turned_gyro\<lparr>analog := None\<rparr>" bench_hal]
    by (simp add: turned_gyro_def calibrated_gyro_def bench_gyro_def bench_hal_def
          turned_input_def accumulate_def sample_def getAccumulatorOutput_def)
qed

end
